theory Spec2Isabelle
  imports Main "HOL-Library.Multiset" "HOL-Library.Sublist" "HOL-Library.AList"
begin

section \<open>Configuration and request types of proxy.py\<close>

definition MAX_BATCH :: nat where
  "MAX_BATCH = 5"

definition BATCH_TIMEOUT_MS :: nat where
  "BATCH_TIMEOUT_MS = 50"

text \<open>The enum \<^verbatim>\<open>_Strategy\<close>.\<close>

datatype Strategy = sjf | fair | fcfs

text \<open>
  A downstream label is whatever JSON value the classifier returned for one sequence: a
  string, or JSON null (Python \<^verbatim>\<open>None\<close>), which the demultiplexer cannot tell from a
  position that was never written.
\<close>

type_synonym label = "string option"

text \<open>
  \<^verbatim>\<open>raise HTTPException(status, detail)\<close> is the value \<open>HTTPException status detail\<close>;
  \<^verbatim>\<open>_Resp\<close> is the record of a successful answer.
\<close>

datatype HTTPException = HTTPException nat string

record Resp =
  results :: "label list"
  proxy_latency_ms :: int

section \<open>Queue items and their futures\<close>

text \<open>
  \<^verbatim>\<open>_Item\<close>. The field \<^verbatim>\<open>id\<close> (a fresh uuid4 string) is \<open>item_id\<close>; \<^verbatim>\<open>ts\<close> is the clock
  reading at creation. The future \<^verbatim>\<open>fut\<close> is mutable and shared between the handler and
  the dispatcher, so it lives in a store keyed by the item's id (see \<open>futs\<close> below).
  A sequence is a list of characters, one per code point, and \<^verbatim>\<open>len\<close> is \<open>length\<close>;
  no statement depends on how \<open>maxlen\<close> was computed, only on the stored value.
\<close>

record Item =
  item_id :: string
  cid :: string
  seqs :: "string list"
  maxlen :: nat
  ts :: int

text \<open>The states of an asyncio future; \<^verbatim>\<open>done()\<close> is \<open>fut_done\<close>.\<close>

datatype fut = Pending | Result "label list" | Exception string | Cancelled

fun fut_done :: "fut \<Rightarrow> bool" where
  "fut_done Pending = False"
| "fut_done (Result r) = True"
| "fut_done (Exception e) = True"
| "fut_done Cancelled = True"

text \<open>\<^verbatim>\<open>max(map(len, seqs))\<close>: Python raises ValueError on an empty list (\<open>None\<close>).\<close>

fun py_max :: "nat list \<Rightarrow> nat option" where
  "py_max [] = None"
| "py_max (x # xs) = Some (fold max xs x)"

definition Item_init :: "string \<Rightarrow> int \<Rightarrow> string \<Rightarrow> string list \<Rightarrow> Item option" where
  "Item_init new_id now c ss =
     (case py_max (map length ss) of
        None \<Rightarrow> None
      | Some m \<Rightarrow> Some \<lparr>item_id = new_id, cid = c, seqs = ss, maxlen = m, ts = now\<rparr>)"

text \<open>\<^verbatim>\<open>_Item.__lt__\<close>, the only comparison \<^verbatim>\<open>sorted\<close> uses.\<close>

definition Item_lt :: "Item \<Rightarrow> Item \<Rightarrow> bool" where
  "Item_lt a b = (maxlen a < maxlen b)"

text \<open>
  \<^verbatim>\<open>sorted(fifo_q)\<close>: Python's sort is stable and ascending under \<^verbatim>\<open>__lt__\<close>. The model
  is the stable insertion sort that asks only \<open>Item_lt\<close>: an item goes in front of the
  first later item that is not smaller than it.
\<close>

fun insert_item :: "Item \<Rightarrow> Item list \<Rightarrow> Item list" where
  "insert_item x [] = [x]"
| "insert_item x (y # ys) = (if Item_lt y x then y # insert_item x ys else x # y # ys)"

definition sorted_items :: "Item list \<Rightarrow> Item list" where
  "sorted_items xs = foldr insert_item xs []"

section \<open>Server state\<close>

text \<open>
  The module globals \<^verbatim>\<open>fifo_q\<close>, \<^verbatim>\<open>q_a\<close>, \<^verbatim>\<open>q_b\<close>, \<^verbatim>\<open>last_turn\<close>, \<^verbatim>\<open>strategy\<close>, and the store of
  the items' futures. A deque is a list with its head at the left.
\<close>

record state =
  fifo_q :: "Item list"
  q_a :: "Item list"
  q_b :: "Item list"
  last_turn :: string
  strategy :: Strategy
  futs :: "string \<Rightarrow> fut"

text \<open>The state at import time; \<^verbatim>\<open>DEFAULT\<close> comes from the environment.\<close>

definition initial_state :: "Strategy \<Rightarrow> state" where
  "initial_state DEFAULT =
     \<lparr>fifo_q = [], q_a = [], q_b = [], last_turn = ''B'', strategy = DEFAULT,
      futs = (\<lambda>_. Pending)\<rparr>"

section \<open>Ingress handler\<close>

text \<open>
  \<^verbatim>\<open>str.upper()\<close> on the header value. The 26 ASCII letters are mapped and any other
  character is kept. Python also maps letters outside ASCII, so for such a header the
  stored \<^verbatim>\<open>cid\<close> differs; which queue it selects does not, since only \<open>a\<close> and \<open>A\<close>
  uppercase to \<open>A\<close>.
\<close>

definition upper_char :: "char \<Rightarrow> char" where
  "upper_char c =
     (case map_of (zip ''abcdefghijklmnopqrstuvwxyz'' ''ABCDEFGHIJKLMNOPQRSTUVWXYZ'') c of
        None \<Rightarrow> c
      | Some u \<Rightarrow> u)"

definition upper :: "string \<Rightarrow> string" where
  "upper s = map upper_char s"

text \<open>The detail of the 400 answer; the dash is U+2013 in UTF-8.\<close>

definition need_msg :: string where
  "need_msg = ''Need 1'' @ [CHR 0xE2, CHR 0x80, CHR 0x93] @ ''5 sequences''"

text \<open>
  \<^verbatim>\<open>proxy_classify\<close> up to its \<^verbatim>\<open>await itm.fut\<close>: validation, item creation and enqueue run
  without suspension. \<open>new_id\<close> and \<open>now\<close> are the uuid and the clock reading the item
  gets; the header is \<open>None\<close> when absent (\<^verbatim>\<open>Header(default="A")\<close>). The result is the
  exception raised or the item the handler then waits on, with the new state.
\<close>

definition proxy_classify :: "string \<Rightarrow> int \<Rightarrow> string list \<Rightarrow> string option \<Rightarrow> state
    \<Rightarrow> (HTTPException + Item) \<times> state" where
  "proxy_classify new_id now sequences x_customer_id s =
     (if \<not> (1 \<le> length sequences \<and> length sequences \<le> MAX_BATCH)
      then (Inl (HTTPException 400 need_msg), s)
      else
        (case Item_init new_id now
                (upper (case x_customer_id of None \<Rightarrow> ''A'' | Some h \<Rightarrow> h)) sequences of
           None \<Rightarrow> (Inl (HTTPException 500 ''Internal Server Error''), s)
         | Some itm \<Rightarrow>
             (let s0 = s\<lparr>futs := (futs s)(item_id itm := Pending)\<rparr> in
              (Inr itm,
               if strategy s0 = fair
               then (if cid itm = ''A'' then s0\<lparr>q_a := q_a s0 @ [itm]\<rparr>
                     else s0\<lparr>q_b := q_b s0 @ [itm]\<rparr>)
               else s0\<lparr>fifo_q := fifo_q s0 @ [itm]\<rparr>))))"

text \<open>
  The rest of \<^verbatim>\<open>proxy_classify\<close>, once the future is done: the answer to the client.
  \<open>latency\<close> is the value of \<^verbatim>\<open>itm.latency()\<close>. A pending future keeps the handler
  suspended (\<open>None\<close>); a cancelled one cancels the handler too, with no answer.
\<close>

definition proxy_classify_answer :: "int \<Rightarrow> fut \<Rightarrow> (HTTPException + Resp) option" where
  "proxy_classify_answer latency f =
     (case f of
        Pending \<Rightarrow> None
      | Result r \<Rightarrow> Some (Inr \<lparr>results = r, proxy_latency_ms = latency\<rparr>)
      | Exception e \<Rightarrow> Some (Inl (HTTPException 500 (''Downstream service error: '' @ e)))
      | Cancelled \<Rightarrow> None)"

text \<open>\<^verbatim>\<open>POST /strategy\<close>.\<close>

definition change :: "Strategy \<Rightarrow> state \<Rightarrow> state" where
  "change new_strategy s = s\<lparr>strategy := new_strategy\<rparr>"

text \<open>
  What other tasks do to the shared state while the dispatcher is suspended: a client
  submits a request, or the strategy is switched.
\<close>

datatype event =
  Submit string int "string list" "string option"
| Change Strategy

fun apply_event :: "event \<Rightarrow> state \<Rightarrow> state" where
  "apply_event (Submit new_id now sequences x_customer_id) s =
     snd (proxy_classify new_id now sequences x_customer_id s)"
| "apply_event (Change new_strategy) s = change new_strategy s"

definition apply_events :: "event list \<Rightarrow> state \<Rightarrow> state" where
  "apply_events evs s = fold apply_event evs s"

section \<open>Batch selection\<close>

text \<open>What one selection leaves in the dispatcher's locals.\<close>

record selection =
  batch :: "Item list"
  total_sequences :: nat
  waited :: bool

text \<open>
  The loop shared by FAIR and FCFS:
  \<^verbatim>\<open>while q and total_sequences + len(q[0].seqs) <= MAX_BATCH: item = q.popleft(); ...\<close>
  It returns the queue, the batch and the running total.
\<close>

fun pop_while_fits :: "Item list \<Rightarrow> Item list \<Rightarrow> nat \<Rightarrow> Item list \<times> Item list \<times> nat" where
  "pop_while_fits [] b t = ([], b, t)"
| "pop_while_fits (item # q) b t =
     (if t + length (seqs item) \<le> MAX_BATCH
      then pop_while_fits q (b @ [item]) (t + length (seqs item))
      else (item # q, b, t))"

text \<open>
  The SJF loop over the sorted snapshot, with its \<^verbatim>\<open>break\<close>; \<^verbatim>\<open>fifo_q.remove(item)\<close>
  deletes the first occurrence.
\<close>

fun sjf_loop :: "Item list \<Rightarrow> Item list \<Rightarrow> nat \<Rightarrow> Item list \<Rightarrow> Item list \<times> nat \<times> Item list" where
  "sjf_loop [] b t q = (b, t, q)"
| "sjf_loop (item # rest) b t q =
     (if t + length (seqs item) \<le> MAX_BATCH
      then sjf_loop rest (b @ [item]) (t + length (seqs item)) (remove1 item q)
      else (b, t, q))"

definition select_sjf :: "state \<Rightarrow> selection \<times> state" where
  "select_sjf s =
     (if fifo_q s \<noteq> []
      then (case sjf_loop (sorted_items (fifo_q s)) [] 0 (fifo_q s) of
              (b, t, q) \<Rightarrow>
                (\<lparr>batch = b, total_sequences = t, waited = False\<rparr>, s\<lparr>fifo_q := q\<rparr>))
      else (\<lparr>batch = [], total_sequences = 0, waited = False\<rparr>, s))"

text \<open>
  The first FAIR step: one item from the primary queue, which also records the turn.
  It returns the primary queue, the batch, the total and the new \<^verbatim>\<open>last_turn\<close>.
\<close>

fun fair_first :: "Item list \<Rightarrow> string \<Rightarrow> string \<Rightarrow> Item list \<times> Item list \<times> nat \<times> string" where
  "fair_first [] turn lt = ([], [], 0, lt)"
| "fair_first (item # primary) turn lt =
     (if 0 + length (seqs item) \<le> MAX_BATCH
      then (primary, [item], 0 + length (seqs item), turn)
      else (item # primary, [], 0, lt))"

definition select_fair :: "state \<Rightarrow> selection \<times> state" where
  "select_fair s =
     (if q_a s \<noteq> [] \<or> q_b s \<noteq> []
      then
        (let turn = (if last_turn s = ''B'' then ''A'' else ''B'');
             primary = (if turn = ''A'' then q_a s else q_b s);
             secondary = (if turn = ''A'' then q_b s else q_a s)
         in case fair_first primary turn (last_turn s) of
              (primary1, b1, t1, lt) \<Rightarrow>
                (case pop_while_fits primary1 b1 t1 of
                   (primary2, b2, t2) \<Rightarrow>
                     (case pop_while_fits secondary b2 t2 of
                        (secondary3, b3, t3) \<Rightarrow>
                          (\<lparr>batch = b3, total_sequences = t3, waited = False\<rparr>,
                           s\<lparr>q_a := (if turn = ''A'' then primary2 else secondary3),
                             q_b := (if turn = ''A'' then secondary3 else primary2),
                             last_turn := lt\<rparr>))))
      else (\<lparr>batch = [], total_sequences = 0, waited = False\<rparr>, s))"

text \<open>
  FCFS. Between the two passes the dispatcher sleeps \<open>BATCH_TIMEOUT_MS\<close> with the lock
  released; \<open>evs\<close> is what the other tasks did meanwhile.
\<close>

definition select_fcfs :: "event list \<Rightarrow> state \<Rightarrow> selection \<times> state" where
  "select_fcfs evs s =
     (case pop_while_fits (fifo_q s) [] 0 of
        (q1, b1, t1) \<Rightarrow>
          (if b1 \<noteq> [] \<and> t1 < MAX_BATCH
           then
             (let s2 = apply_events evs (s\<lparr>fifo_q := q1\<rparr>)
              in case pop_while_fits (fifo_q s2) b1 t1 of
                   (q2, b2, t2) \<Rightarrow>
                     (\<lparr>batch = b2, total_sequences = t2, waited = True\<rparr>, s2\<lparr>fifo_q := q2\<rparr>))
           else (\<lparr>batch = b1, total_sequences = t1, waited = False\<rparr>, s\<lparr>fifo_q := q1\<rparr>)))"

text \<open>The strategy is read once, at the top of the cycle.\<close>

definition select_batch :: "event list \<Rightarrow> state \<Rightarrow> selection \<times> state" where
  "select_batch evs s =
     (case strategy s of
        sjf \<Rightarrow> select_sjf s
      | fair \<Rightarrow> select_fair s
      | fcfs \<Rightarrow> select_fcfs evs s)"

text \<open>The number of sequences a batch sends downstream.\<close>

definition batch_size :: "Item list \<Rightarrow> nat" where
  "batch_size b = sum_list (map (\<lambda>i. length (seqs i)) b)"

section \<open>The dispatcher cycle\<close>

text \<open>
  Flatten the batch and record, for every flat position, the item it belongs to and the
  position within that item.
\<close>

definition flatten :: "Item list \<Rightarrow> string list \<times> (Item \<times> nat) list" where
  "flatten b =
     (concat (map seqs b),
      concat (map (\<lambda>itm. map (\<lambda>i. (itm, i)) [0..<length (seqs itm)]) b))"

text \<open>
  The failure path: \<^verbatim>\<open>for itm in batch: if not itm.fut.done(): itm.fut.set_exception(...)\<close>,
  with \<open>e\<close> the text \<^verbatim>\<open>str(e)\<close> of the exception caught.
\<close>

fun fail_batch :: "string \<Rightarrow> Item list \<Rightarrow> (string \<Rightarrow> fut) \<Rightarrow> (string \<Rightarrow> fut)" where
  "fail_batch e [] f = f"
| "fail_batch e (itm # rest) f =
     fail_batch e rest
       (if \<not> fut_done (f (item_id itm)) then f(item_id itm := Exception e) else f)"

text \<open>
  The dict \<^verbatim>\<open>request_results\<close>, keyed by item id, in insertion order; each entry holds
  the item and its buffer \<^verbatim>\<open>[None] * len(itm.seqs)\<close>.
\<close>

type_synonym request_results = "(string \<times> Item \<times> label list) list"

text \<open>
  The grouping loop over \<^verbatim>\<open>zip(idx_map, labels)\<close>. Writing a buffer out of range raises
  IndexError outside any \<^verbatim>\<open>try\<close>, which ends the dispatcher task: \<open>None\<close>.
\<close>

fun group_results :: "((Item \<times> nat) \<times> label) list \<Rightarrow> request_results \<Rightarrow> request_results option" where
  "group_results [] rr = Some rr"
| "group_results (((itm, pos), lab) # rest) rr =
     (let rr1 = (if map_of rr (item_id itm) = None
                 then AList.update (item_id itm) (itm, replicate (length (seqs itm)) None) rr
                 else rr)
      in case map_of rr1 (item_id itm) of
           None \<Rightarrow> None
         | Some (it, res) \<Rightarrow>
             if pos < length res
             then group_results rest (AList.update (item_id itm) (it, res[pos := lab]) rr1)
             else None)"

text \<open>
  The loop that resolves the futures of the complete entries; an incomplete entry, or
  one whose future is done, only gets a log line.
\<close>

fun set_results :: "request_results \<Rightarrow> (string \<Rightarrow> fut) \<Rightarrow> (string \<Rightarrow> fut)" where
  "set_results [] f = f"
| "set_results ((req_id, item, res) # rest) f =
     set_results rest
       (if list_all (\<lambda>x. x \<noteq> None) res \<and> \<not> fut_done (f (item_id item))
        then f(item_id item := Result res) else f)"

definition demux :: "Item list \<Rightarrow> label list \<Rightarrow> (string \<Rightarrow> fut) \<Rightarrow> (string \<Rightarrow> fut) option" where
  "demux b labels f =
     (case group_results (zip (snd (flatten b)) labels) [] of
        None \<Rightarrow> None
      | Some rr \<Rightarrow> Some (set_results rr f))"

text \<open>
  One iteration of \<^verbatim>\<open>while True\<close> in \<^verbatim>\<open>_dispatcher\<close>. \<open>evs\<close> is what happens during the
  FCFS wait, \<open>response\<close> what the downstream call gives: \<open>Inl e\<close> when the call raised,
  answered a non-success status or had no \<^verbatim>\<open>results\<close> (\<open>e\<close> is the exception's text),
  \<open>Inr labels\<close> otherwise. The value is the batch sent (empty for an idle cycle, which
  calls nothing) and the state the next iteration starts from, or \<open>None\<close> when an
  uncaught exception ends the task. Requests that arrive during the downstream call only
  append to the queues and create their own futures; they are events after the cycle.
\<close>

definition dispatcher_cycle :: "event list \<Rightarrow> string + label list \<Rightarrow> state
    \<Rightarrow> (Item list \<times> state) option" where
  "dispatcher_cycle evs response s =
     (case select_batch evs s of
        (sel, s1) \<Rightarrow>
          if batch sel = [] then Some ([], s1)
          else
            (case response of
               Inl e \<Rightarrow> Some (batch sel, s1\<lparr>futs := fail_batch e (batch sel) (futs s1)\<rparr>)
             | Inr labels \<Rightarrow>
                 (case demux (batch sel) labels (futs s1) of
                    None \<Rightarrow> None
                  | Some f \<Rightarrow> Some (batch sel, s1\<lparr>futs := f\<rparr>))))"

text \<open>
  A finite stretch of the server's life: events of the other tasks and iterations of the
  dispatcher loop, in the order they happen. \<open>None\<close>: the dispatcher task has died.
\<close>

datatype step = Ev event | Cycle "event list" "string + label list"

fun run :: "step list \<Rightarrow> state \<Rightarrow> state option" where
  "run [] s = Some s"
| "run (Ev e # rest) s = run rest (apply_event e s)"
| "run (Cycle evs response # rest) s =
     (case dispatcher_cycle evs response s of
        None \<Rightarrow> None
      | Some (b, s') \<Rightarrow> run rest s')"

section \<open>Notions used in the statements\<close>

text \<open>
  Draining a queue from its head while each item fits, starting from a total of \<open>t\<close>
  sequences: the items taken.
\<close>

fun take_fitting :: "nat \<Rightarrow> Item list \<Rightarrow> Item list" where
  "take_fitting t [] = []"
| "take_fitting t (x # xs) =
     (if t + length (seqs x) \<le> MAX_BATCH then x # take_fitting (t + length (seqs x)) xs
      else [])"

text \<open>
  What admission guarantees of every queued item: between 1 and \<open>MAX_BATCH\<close> sequences,
  and under FAIR the queue of its class.
\<close>

definition valid_item :: "Item \<Rightarrow> bool" where
  "valid_item it = (1 \<le> length (seqs it) \<and> length (seqs it) \<le> MAX_BATCH)"

definition valid_queues :: "state \<Rightarrow> bool" where
  "valid_queues s =
     (list_all valid_item (fifo_q s @ q_a s @ q_b s)
      \<and> list_all (\<lambda>it. cid it = ''A'') (q_a s)
      \<and> list_all (\<lambda>it. cid it \<noteq> ''A'') (q_b s))"

text \<open>The turn a FAIR cycle computes, and the two queues in the order it visits them.\<close>

definition fair_turn :: "state \<Rightarrow> string" where
  "fair_turn s = (if last_turn s = ''B'' then ''A'' else ''B'')"

definition fair_primary :: "state \<Rightarrow> Item list" where
  "fair_primary s = (if fair_turn s = ''A'' then q_a s else q_b s)"

definition fair_secondary :: "state \<Rightarrow> Item list" where
  "fair_secondary s = (if fair_turn s = ''A'' then q_b s else q_a s)"

text \<open>
  The SJF packing as the specification words it (best-fit-after-sort): walk the whole
  sorted view, admit what fits, skip what does not and go on. It is compared with what
  the dispatcher selects.
\<close>

fun spec_best_fit :: "nat \<Rightarrow> Item list \<Rightarrow> Item list" where
  "spec_best_fit t [] = []"
| "spec_best_fit t (x # xs) =
     (if t + length (seqs x) \<le> MAX_BATCH then x # spec_best_fit (t + length (seqs x)) xs
      else spec_best_fit t xs)"

text \<open>
  FAIR has not yet served class A in a stretch of steps: every dispatcher iteration that
  ran under FAIR found \<open>q_a\<close> empty (iterations under the other strategies, idle FAIR
  iterations and FAIR batches of class B alone all count as such).
\<close>

fun fair_not_engaged :: "step list \<Rightarrow> state \<Rightarrow> bool" where
  "fair_not_engaged [] s = True"
| "fair_not_engaged (Ev e # rest) s = fair_not_engaged rest (apply_event e s)"
| "fair_not_engaged (Cycle evs response # rest) s =
     ((strategy s = fair \<longrightarrow> q_a s = [])
      \<and> (case dispatcher_cycle evs response s of
            None \<Rightarrow> True
          | Some (b, s') \<Rightarrow> fair_not_engaged rest s'))"

text \<open>
  What the grouping loop leaves in \<^verbatim>\<open>request_results\<close> for a batch of distinct items and
  the labels returned: per item that got at least one label, in batch order, its labels
  followed by \<open>None\<close> for the positions that got none.
\<close>

fun buffers :: "Item list \<Rightarrow> label list \<Rightarrow> request_results" where
  "buffers [] ls = []"
| "buffers (itm # b) ls =
     (if ls = [] \<or> seqs itm = [] then []
      else [(item_id itm, itm,
             take (length (seqs itm)) ls @ replicate (length (seqs itm) - length ls) None)])
     @ buffers b (drop (length (seqs itm)) ls)"

section \<open>Example inputs\<close>

text \<open>Three requests: two of three sequences each, one of a single longer sequence.\<close>

definition item_r1 :: Item where
  "item_r1 = \<lparr>item_id = ''r1'', cid = ''A'', seqs = [''a'', ''b'', ''c''], maxlen = 1, ts = 1\<rparr>"

definition item_r2 :: Item where
  "item_r2 = \<lparr>item_id = ''r2'', cid = ''B'', seqs = [''dd'', ''e'', ''f''], maxlen = 2, ts = 2\<rparr>"

definition item_r3 :: Item where
  "item_r3 = \<lparr>item_id = ''r3'', cid = ''A'', seqs = [''ggg''], maxlen = 3, ts = 3\<rparr>"

text \<open>The three of them waiting in the global FIFO, in this order of arrival.\<close>

definition fifo_state :: "Strategy \<Rightarrow> state" where
  "fifo_state st = (initial_state st)\<lparr>fifo_q := [item_r1, item_r2, item_r3]\<rparr>"

text \<open>Two requests left in the per-customer queues, the global FIFO empty.\<close>

definition stranded_state :: "Strategy \<Rightarrow> state" where
  "stranded_state st = (initial_state st)\<lparr>q_a := [item_r1], q_b := [item_r2]\<rparr>"

text \<open>The same FIFO under FCFS, the client of the first request gone (its future cancelled).\<close>

definition cancelled_state :: state where
  "cancelled_state = (fifo_state fcfs)\<lparr>futs := (\<lambda>_. Pending)(''r1'' := Cancelled)\<rparr>"

text \<open>A single request of three sequences waiting under FCFS.\<close>

definition lone_state :: state where
  "lone_state = (initial_state fcfs)\<lparr>fifo_q := [item_r1]\<rparr>"

text \<open>A request of class A that arrives between two FAIR cycles.\<close>

definition refill :: "event list" where
  "refill = [Submit ''r4'' 4 [''x''] (Some ''a'')]"

text \<open>
  A stretch under FAIR: a request of class B arrives, a cycle serves it (its downstream
  call fails), then a request without a customer header arrives.
\<close>

definition warm_up :: "step list" where
  "warm_up = [Ev (Submit ''r5'' 5 [''y'', ''z''] (Some ''b'')), Cycle [] (Inl ''e''),
              Ev (Submit ''r4'' 4 [''x''] None)]"

text \<open>
  A request of three sequences and one of a single sequence under SJF, and a downstream
  answer of three labels for the four sequences they make.
\<close>

definition pair_state :: state where
  "pair_state = (initial_state sjf)\<lparr>fifo_q := [item_r1, item_r3]\<rparr>"

definition three_labels :: "label list" where
  "three_labels = [Some ''code'', Some ''not code'', Some ''code'']"

section \<open>Selection in closed form\<close>

lemma batch_size_Nil [simp]: "batch_size [] = 0"
  by (simp add: batch_size_def)

lemma batch_size_Cons [simp]: "batch_size (x # xs) = length (seqs x) + batch_size xs"
  by (simp add: batch_size_def)

lemma batch_size_append [simp]: "batch_size (xs @ ys) = batch_size xs + batch_size ys"
  by (simp add: batch_size_def)

lemma pop_while_fits_eq:
  "pop_while_fits q b t =
     (drop (length (take_fitting t q)) q, b @ take_fitting t q, t + batch_size (take_fitting t q))"
  by (induction q arbitrary: b t) simp_all

lemma sjf_loop_eq:
  "sjf_loop xs b t q =
     (b @ take_fitting t xs, t + batch_size (take_fitting t xs), fold remove1 (take_fitting t xs) q)"
  by (induction xs arbitrary: b t q) simp_all

lemma take_fitting_prefix: "take_fitting t q @ drop (length (take_fitting t q)) q = q"
  by (induction q arbitrary: t) simp_all

lemma take_fitting_bound: "t \<le> MAX_BATCH \<Longrightarrow> t + batch_size (take_fitting t q) \<le> MAX_BATCH"
proof (induction q arbitrary: t)
  case Nil
  then show ?case by simp
next
  case (Cons x q)
  show ?case
  proof (cases "t + length (seqs x) \<le> MAX_BATCH")
    case True
    from Cons.IH [OF True] True show ?thesis by (simp add: add.assoc)
  next
    case False
    with Cons.prems show ?thesis by simp
  qed
qed

lemma take_fitting_bound0: "batch_size (take_fitting 0 q) \<le> MAX_BATCH"
  using take_fitting_bound [of 0 q] by simp

lemma sorted_items_eq: "sorted_items xs = sort_key maxlen xs"
proof -
  have "insert_item x ys = insort_key maxlen x ys" for x ys
    by (induction ys) (auto simp: Item_lt_def)
  then have "insert_item = insort_key maxlen" by (intro ext)
  then show ?thesis by (simp add: sorted_items_def sort_key_def)
qed

lemma sorted_items_Nil [simp]: "sorted_items [] = []"
  by (simp add: sorted_items_def)

lemma fair_core:
  "(case fair_first p turn lt of
      (p1, b1, t1, lt') \<Rightarrow>
        (case pop_while_fits p1 b1 t1 of
           (p2, b2, t2) \<Rightarrow>
             (case pop_while_fits q b2 t2 of (q3, b3, t3) \<Rightarrow> F p2 q3 b3 t3 lt'))) =
   F (drop (length (take_fitting 0 p)) p)
     (drop (length (take_fitting (batch_size (take_fitting 0 p)) q)) q)
     (take_fitting 0 p @ take_fitting (batch_size (take_fitting 0 p)) q)
     (batch_size (take_fitting 0 p @ take_fitting (batch_size (take_fitting 0 p)) q))
     (if take_fitting 0 p = [] then lt else turn)"
  by (cases p) (simp_all add: pop_while_fits_eq)

lemma select_fair_eq:
  "select_fair s =
     (if q_a s \<noteq> [] \<or> q_b s \<noteq> []
      then
        (let bp = take_fitting 0 (fair_primary s);
             bs = take_fitting (batch_size bp) (fair_secondary s);
             p' = drop (length bp) (fair_primary s);
             q' = drop (length bs) (fair_secondary s)
         in (\<lparr>batch = bp @ bs, total_sequences = batch_size (bp @ bs), waited = False\<rparr>,
             s\<lparr>q_a := (if fair_turn s = ''A'' then p' else q'),
               q_b := (if fair_turn s = ''A'' then q' else p'),
               last_turn := (if bp = [] then last_turn s else fair_turn s)\<rparr>))
      else (\<lparr>batch = [], total_sequences = 0, waited = False\<rparr>, s))"
  unfolding select_fair_def Let_def fair_core fair_primary_def fair_secondary_def fair_turn_def
  by simp


lemma apply_event_fifo: "prefix (fifo_q s) (fifo_q (apply_event e s))"
  by (cases e) (simp_all add: proxy_classify_def change_def Let_def split: option.splits)

lemma apply_events_fifo: "prefix (fifo_q s) (fifo_q (apply_events evs s))"
  unfolding apply_events_def
proof (induction evs arbitrary: s)
  case Nil
  then show ?case by simp
next
  case (Cons e evs)
  have "prefix (fifo_q s) (fifo_q (apply_event e s))" by (rule apply_event_fifo)
  also have "prefix \<dots> (fifo_q (fold apply_event evs (apply_event e s)))" by (rule Cons.IH)
  finally show ?case by simp
qed

lemma select_fcfs_eq:
  "select_fcfs evs s =
     (let b1 = take_fitting 0 (fifo_q s);
          s1 = s\<lparr>fifo_q := drop (length b1) (fifo_q s)\<rparr>
      in if b1 \<noteq> [] \<and> batch_size b1 < MAX_BATCH
         then
           (let s2 = apply_events evs s1;
                b2 = take_fitting (batch_size b1) (fifo_q s2)
            in (\<lparr>batch = b1 @ b2, total_sequences = batch_size (b1 @ b2), waited = True\<rparr>,
                s2\<lparr>fifo_q := drop (length b2) (fifo_q s2)\<rparr>))
         else (\<lparr>batch = b1, total_sequences = batch_size b1, waited = False\<rparr>, s1))"
  by (simp add: select_fcfs_def pop_while_fits_eq Let_def)

lemma select_sjf_eq:
  "select_sjf s =
     (let b = take_fitting 0 (sorted_items (fifo_q s))
      in (\<lparr>batch = b, total_sequences = batch_size b, waited = False\<rparr>,
          s\<lparr>fifo_q := fold remove1 b (fifo_q s)\<rparr>))"
  by (simp add: select_sjf_def sjf_loop_eq Let_def)

lemma select_batch_size: "batch_size (batch (fst (select_batch evs s))) \<le> MAX_BATCH"
proof (cases "strategy s")
  case sjf
  then show ?thesis
    by (simp add: select_batch_def select_sjf_eq Let_def take_fitting_bound0)
next
  case fair
  have "batch_size (take_fitting 0 p) + batch_size (take_fitting (batch_size (take_fitting 0 p)) q)
          \<le> MAX_BATCH" for p q
    by (rule take_fitting_bound) (rule take_fitting_bound0)
  with fair show ?thesis
    by (simp add: select_batch_def select_fair_eq Let_def)
next
  case fcfs
  have "batch_size (take_fitting 0 p) + batch_size (take_fitting (batch_size (take_fitting 0 p)) q)
          \<le> MAX_BATCH" for p q
    by (rule take_fitting_bound) (rule take_fitting_bound0)
  with fcfs show ?thesis
    by (simp add: select_batch_def select_fcfs_eq Let_def take_fitting_bound0)
qed

lemma select_batch_total:
  "total_sequences (fst (select_batch evs s)) = batch_size (batch (fst (select_batch evs s)))"
  by (cases "strategy s")
     (simp_all add: select_batch_def select_sjf_eq select_fair_eq select_fcfs_eq Let_def)

lemma length_flat: "length (fst (flatten b)) = batch_size b"
  by (induction b) (simp_all add: flatten_def)

lemma length_idx_map: "length (snd (flatten b)) = batch_size b"
  by (induction b) (simp_all add: flatten_def)

lemma member_le_batch_size: "x \<in> set xs \<Longrightarrow> length (seqs x) \<le> batch_size xs"
  by (induction xs) auto

lemma two_members_le_batch_size:
  assumes "i < j" "j < length b"
  shows "length (seqs (b ! i)) + length (seqs (b ! j)) \<le> batch_size b"
proof -
  have b: "b = take j b @ b ! j # drop (Suc j) b"
    using assms by (simp add: id_take_nth_drop)
  have "b ! i \<in> set (take j b)"
    using assms by (auto simp: in_set_conv_nth intro!: exI [of _ i])
  then have "length (seqs (b ! i)) \<le> batch_size (take j b)"
    by (rule member_le_batch_size)
  moreover have "batch_size b = batch_size (take j b) + (length (seqs (b ! j)) + batch_size (drop (Suc j) b))"
    by (subst b) simp
  ultimately show ?thesis by simp
qed

lemma dispatcher_cycle_batch:
  "dispatcher_cycle evs response s = Some (b, s') \<Longrightarrow> b = batch (fst (select_batch evs s))"
  by (auto simp: dispatcher_cycle_def split: prod.splits if_splits sum.splits option.splits)

section \<open>The batch bound\<close>

text \<open>
  C1. Whatever the strategy, the state and the events during an FCFS wait, the batch a
  cycle selects carries at most \<open>MAX_BATCH = 5\<close> sequences: the running total the loop
  keeps is the size of the batch, the flat list sent downstream has that many entries,
  no batch holds two items of three sequences each, and the batch a cycle reports is
  the selected one.
\<close>

theorem batch_never_exceeds_MAX_BATCH:
  "(let b = batch (fst (select_batch evs s))
    in batch_size b \<le> MAX_BATCH \<and> MAX_BATCH = 5
       \<and> total_sequences (fst (select_batch evs s)) = batch_size b
       \<and> length (fst (flatten b)) = batch_size b
       \<and> (\<forall>i j. i < j \<and> j < length b \<and> length (seqs (b ! i)) = 3 \<longrightarrow> length (seqs (b ! j)) \<noteq> 3)
       \<and> (\<forall>response b' s'. dispatcher_cycle evs response s = Some (b', s') \<longrightarrow> b' = b))"
proof -
  define b where "b = batch (fst (select_batch evs s))"
  have bound: "batch_size b \<le> MAX_BATCH"
    unfolding b_def by (rule select_batch_size)
  have "length (seqs (b ! j)) \<noteq> 3" if "i < j" "j < length b" "length (seqs (b ! i)) = 3" for i j
    using two_members_le_batch_size [OF that(1,2)] that(3) bound by (simp add: MAX_BATCH_def)
  moreover have "b' = b" if "dispatcher_cycle evs response s = Some (b', s')" for response b' s'
    using dispatcher_cycle_batch [OF that] by (simp add: b_def)
  ultimately show ?thesis
    using bound select_batch_total [of evs s] length_flat [of b]
    unfolding b_def Let_def by (simp add: MAX_BATCH_def) blast
qed


theorem batch_never_exceeds_MAX_BATCH_witness:
  "batch (fst (select_batch [] (fifo_state fcfs))) = [item_r1]
   \<and> batch_size (batch (fst (select_batch [] (fifo_state fcfs)))) \<le> MAX_BATCH
   \<and> length (seqs item_r1) = 3 \<and> length (seqs item_r2) = 3"
  using batch_never_exceeds_MAX_BATCH [of "[]" "fifo_state fcfs"]
  by (simp add: Let_def select_batch_def select_fcfs_def apply_events_def fifo_state_def
      initial_state_def item_r1_def item_r2_def item_r3_def MAX_BATCH_def)

section \<open>SJF\<close>

lemma take_fitting_stop:
  "drop (length (take_fitting t q)) q = r # rs
     \<Longrightarrow> MAX_BATCH < t + batch_size (take_fitting t q) + length (seqs r)"
proof (induction q arbitrary: t)
  case Nil
  then show ?case by simp
next
  case (Cons x q)
  show ?case
  proof (cases "t + length (seqs x) \<le> MAX_BATCH")
    case True
    with Cons.prems have "drop (length (take_fitting (t + length (seqs x)) q)) q = r # rs"
      by simp
    from Cons.IH [OF this] True show ?thesis by (simp add: add.assoc)
  next
    case False
    with Cons.prems show ?thesis by simp
  qed
qed

lemma subseq_remove1: "subseq (remove1 x q) q"
  by (induction q) auto

lemma subseq_fold_remove1: "subseq (fold remove1 b q) q"
proof (induction b arbitrary: q)
  case Nil
  then show ?case by simp
next
  case (Cons x b)
  have "subseq (fold remove1 b (remove1 x q)) (remove1 x q)" by (rule Cons.IH)
  also have "subseq (remove1 x q) q" by (rule subseq_remove1)
  finally show ?case by simp
qed

lemma mset_fold_remove1: "mset (fold remove1 b q) = mset q - mset b"
  by (induction b arbitrary: q) (simp_all add: diff_diff_add_mset)

lemma mset_take_fitting: "mset (take_fitting t q) \<subseteq># mset q"
proof -
  have "mset q = mset (take_fitting t q) + mset (drop (length (take_fitting t q)) q)"
    by (subst (1) take_fitting_prefix [of t q, symmetric]) (simp only: mset_append)
  then show ?thesis by simp
qed

text \<open>
  C2, as stated, fails. With three items in the FIFO, of 3, 3 and 1 sequences and of
  growing \<open>maxlen\<close>, the sorted view is the FIFO itself; the dispatcher admits the first
  item and stops at the second, which does not fit. The third would fit in the two
  places left, and best-fit-after-sort admits it, yet it stays queued.
\<close>

theorem sjf_best_fit_counterexample:
  "batch (fst (select_batch [] (fifo_state sjf))) = [item_r1]
   \<and> sorted_items (fifo_q (fifo_state sjf)) = [item_r1, item_r2, item_r3]
   \<and> spec_best_fit 0 (sorted_items (fifo_q (fifo_state sjf))) = [item_r1, item_r3]
   \<and> total_sequences (fst (select_batch [] (fifo_state sjf))) + length (seqs item_r3) \<le> MAX_BATCH
   \<and> fifo_q (snd (select_batch [] (fifo_state sjf))) = [item_r2, item_r3]"
  by (simp add: select_batch_def select_sjf_def sorted_items_def Item_lt_def fifo_state_def
      initial_state_def item_r1_def item_r2_def item_r3_def MAX_BATCH_def)

text \<open>
  C2, amended. Under SJF the cycle sorts a snapshot of the FIFO by \<open>maxlen\<close>, ascending
  and stable (items of equal \<open>maxlen\<close> keep their FIFO order), and admits the longest
  front part of the sorted view in which every item still fits: the batch is a prefix of
  the view, every shorter prefix is within \<open>MAX_BATCH\<close>, and the walk stops at the first
  item that does not fit or at the end of the view. Exactly the admitted items leave
  the FIFO; the others stay in their order, and nothing else in the state changes.
\<close>

theorem sjf_prefix_greedy:
  assumes "strategy s = sjf"
  shows "(let v = sorted_items (fifo_q s); b = batch (fst (select_batch evs s));
              s' = snd (select_batch evs s)
          in sorted (map maxlen v) \<and> mset v = mset (fifo_q s)
             \<and> (\<forall>k. filter (\<lambda>x. maxlen x = k) v = filter (\<lambda>x. maxlen x = k) (fifo_q s))
             \<and> (\<exists>rest. v = b @ rest
                  \<and> (rest = [] \<or> MAX_BATCH < batch_size b + length (seqs (hd rest))))
             \<and> (\<forall>n. n \<le> length b \<longrightarrow> batch_size (take n v) \<le> MAX_BATCH)
             \<and> mset (fifo_q s') + mset b = mset (fifo_q s) \<and> subseq (fifo_q s') (fifo_q s)
             \<and> s' = s\<lparr>fifo_q := fifo_q s'\<rparr>)"
proof -
  define v where "v = sorted_items (fifo_q s)"
  define b where "b = take_fitting 0 v"
  have sel: "select_batch evs s =
      (\<lparr>batch = b, total_sequences = batch_size b, waited = False\<rparr>,
       s\<lparr>fifo_q := fold remove1 b (fifo_q s)\<rparr>)"
    using assms by (simp add: select_batch_def select_sjf_eq Let_def b_def v_def)
  have v: "v = sort_key maxlen (fifo_q s)"
    by (simp add: v_def sorted_items_eq)
  have 1: "sorted (map maxlen v)" and 2: "mset v = mset (fifo_q s)"
    by (simp_all add: v)
  have 3: "filter (\<lambda>x. maxlen x = k) v = filter (\<lambda>x. maxlen x = k) (fifo_q s)" for k
    unfolding v by (rule sort_key_stable)
  have pre: "v = b @ drop (length b) v"
    unfolding b_def by (rule take_fitting_prefix [symmetric])
  have stop: "drop (length b) v = [] \<or> MAX_BATCH < batch_size b + length (seqs (hd (drop (length b) v)))"
  proof (cases "drop (length b) v")
    case Nil
    then show ?thesis by simp
  next
    case (Cons r rs)
    with take_fitting_stop [of 0 v r rs] show ?thesis by (simp add: b_def)
  qed
  have 4: "\<exists>rest. v = b @ rest \<and> (rest = [] \<or> MAX_BATCH < batch_size b + length (seqs (hd rest)))"
    using pre stop by blast
  have 5: "batch_size (take n v) \<le> MAX_BATCH" if "n \<le> length b" for n
  proof -
    have "take n v = take n b" using that by (subst pre) simp
    moreover have "b = take n b @ drop n b" by simp
    then have "batch_size b = batch_size (take n b) + batch_size (drop n b)"
      by (metis batch_size_append)
    moreover have "batch_size b \<le> MAX_BATCH" unfolding b_def by (rule take_fitting_bound0)
    ultimately show ?thesis by simp
  qed
  have sub: "mset b \<subseteq># mset (fifo_q s)"
    using mset_take_fitting [of 0 v] by (simp add: b_def 2)
  have 6: "mset (fold remove1 b (fifo_q s)) + mset b = mset (fifo_q s)"
    using sub by (simp add: mset_fold_remove1)
  have 7: "subseq (fold remove1 b (fifo_q s)) (fifo_q s)"
    by (rule subseq_fold_remove1)
  show ?thesis
    unfolding Let_def v_def [symmetric] sel
    using 1 2 3 4 5 6 7 by simp
qed

theorem sjf_prefix_greedy_witness:
  "batch (fst (select_batch [] (fifo_state sjf))) = [item_r1]
   \<and> sorted (map maxlen (sorted_items (fifo_q (fifo_state sjf))))"
  using sjf_prefix_greedy [of "fifo_state sjf" "[]"]
  by (simp add: Let_def select_batch_def select_sjf_def sorted_items_def Item_lt_def fifo_state_def
      initial_state_def item_r1_def item_r2_def item_r3_def MAX_BATCH_def)

section \<open>Which queues a cycle reads\<close>

lemma apply_event_q_a: "prefix (q_a s) (q_a (apply_event e s))"
  by (cases e) (simp_all add: proxy_classify_def change_def Let_def split: option.splits)

lemma apply_event_q_b: "prefix (q_b s) (q_b (apply_event e s))"
  by (cases e) (simp_all add: proxy_classify_def change_def Let_def split: option.splits)

lemma apply_events_q_a: "prefix (q_a s) (q_a (apply_events evs s))"
  unfolding apply_events_def
proof (induction evs arbitrary: s)
  case Nil
  then show ?case by simp
next
  case (Cons e evs)
  have "prefix (q_a s) (q_a (apply_event e s))" by (rule apply_event_q_a)
  also have "prefix \<dots> (q_a (fold apply_event evs (apply_event e s)))" by (rule Cons.IH)
  finally show ?case by simp
qed

lemma apply_events_q_b: "prefix (q_b s) (q_b (apply_events evs s))"
  unfolding apply_events_def
proof (induction evs arbitrary: s)
  case Nil
  then show ?case by simp
next
  case (Cons e evs)
  have "prefix (q_b s) (q_b (apply_event e s))" by (rule apply_event_q_b)
  also have "prefix \<dots> (q_b (fold apply_event evs (apply_event e s)))" by (rule Cons.IH)
  finally show ?case by simp
qed

lemma take_fitting_nonempty:
  "q \<noteq> [] \<Longrightarrow> list_all valid_item q \<Longrightarrow> take_fitting 0 q \<noteq> []"
  by (cases q) (simp_all add: valid_item_def)

lemma take_fitting_Nil_iff:
  "list_all valid_item q \<Longrightarrow> take_fitting 0 q = [] \<longleftrightarrow> q = []"
  by (cases q) (simp_all add: valid_item_def)

lemma list_all_sorted_items: "list_all P (sorted_items q) = list_all P q"
  by (simp add: sorted_items_eq list_all_iff)

lemma sorted_items_Nil_iff: "sorted_items q = [] \<longleftrightarrow> q = []"
  by (metis sorted_items_eq length_sort length_0_conv)

lemma mset_take_fitting_drop:
  "mset (take_fitting t q) + mset (drop (length (take_fitting t q)) q) = mset q"
proof -
  have "mset (take_fitting t q @ drop (length (take_fitting t q)) q) = mset q"
    by (simp only: take_fitting_prefix)
  then show ?thesis by simp
qed

lemma select_sjf_drawn:
  "mset (batch (fst (select_sjf s))) + mset (fifo_q (snd (select_sjf s))) = mset (fifo_q s)"
proof -
  have "mset (take_fitting 0 (sorted_items (fifo_q s))) \<subseteq># mset (fifo_q s)"
    using mset_take_fitting [of 0 "sorted_items (fifo_q s)"] by (simp add: sorted_items_eq)
  then show ?thesis
    by (simp add: select_sjf_eq Let_def mset_fold_remove1)
qed

lemma select_fair_drawn:
  "mset (batch (fst (select_fair s))) + mset (q_a (snd (select_fair s)))
     + mset (q_b (snd (select_fair s))) = mset (q_a s) + mset (q_b s)"
proof (cases "q_a s \<noteq> [] \<or> q_b s \<noteq> []")
  case True
  define P where "P = fair_primary s"
  define Q where "Q = fair_secondary s"
  define bp where "bp = take_fitting 0 P"
  define bs where "bs = take_fitting (batch_size bp) Q"
  have p: "mset bp + mset (drop (length bp) P) = mset P"
    unfolding bp_def by (rule mset_take_fitting_drop)
  have q: "mset bs + mset (drop (length bs) Q) = mset Q"
    unfolding bs_def by (rule mset_take_fitting_drop)
  have PQ: "mset P + mset Q = mset (q_a s) + mset (q_b s)"
    by (simp add: P_def Q_def fair_primary_def fair_secondary_def)
  have b: "batch (fst (select_fair s)) = bp @ bs"
    using True by (simp add: select_fair_eq Let_def bp_def bs_def P_def Q_def)
  have rest: "mset (q_a (snd (select_fair s))) + mset (q_b (snd (select_fair s)))
      = mset (drop (length bp) P) + mset (drop (length bs) Q)"
    using True by (simp add: select_fair_eq Let_def bp_def bs_def P_def Q_def)
  have "mset (batch (fst (select_fair s))) + mset (q_a (snd (select_fair s)))
      + mset (q_b (snd (select_fair s)))
      = mset (bp @ bs) + (mset (drop (length bp) P) + mset (drop (length bs) Q))"
    unfolding b rest [symmetric] by (simp add: add.assoc)
  also have "\<dots> = (mset bp + mset (drop (length bp) P)) + (mset bs + mset (drop (length bs) Q))"
    by (simp add: ac_simps)
  also have "\<dots> = mset P + mset Q"
    by (simp only: p q)
  finally show ?thesis
    by (simp only: PQ)
next
  case False
  then show ?thesis by (simp add: select_fair_eq)
qed

lemma select_fcfs_drawn:
  "\<exists>arrived.
     fifo_q (apply_events evs (s\<lparr>fifo_q := drop (length (take_fitting 0 (fifo_q s))) (fifo_q s)\<rparr>))
       = drop (length (take_fitting 0 (fifo_q s))) (fifo_q s) @ arrived
     \<and> batch (fst (select_fcfs evs s)) @ fifo_q (snd (select_fcfs evs s))
         = fifo_q s @ (if waited (fst (select_fcfs evs s)) then arrived else [])"
proof -
  define b1 where "b1 = take_fitting 0 (fifo_q s)"
  define s1 where "s1 = s\<lparr>fifo_q := drop (length b1) (fifo_q s)\<rparr>"
  define s2 where "s2 = apply_events evs s1"
  define b2 where "b2 = take_fitting (batch_size b1) (fifo_q s2)"
  have pre1: "b1 @ drop (length b1) (fifo_q s) = fifo_q s"
    unfolding b1_def by (rule take_fitting_prefix)
  have pre2: "b2 @ drop (length b2) (fifo_q s2) = fifo_q s2"
    unfolding b2_def by (rule take_fitting_prefix)
  obtain arrived where arr: "fifo_q s2 = drop (length b1) (fifo_q s) @ arrived"
    using apply_events_fifo [of s1 evs] by (auto simp: s2_def s1_def prefix_def)
  have "batch (fst (select_fcfs evs s)) @ fifo_q (snd (select_fcfs evs s))
      = fifo_q s @ (if waited (fst (select_fcfs evs s)) then arrived else [])"
  proof (cases "b1 \<noteq> [] \<and> batch_size b1 < MAX_BATCH")
    case True
    have "(b1 @ b2) @ drop (length b2) (fifo_q s2) = b1 @ fifo_q s2"
      using pre2 by simp
    also have "\<dots> = fifo_q s @ arrived"
      using pre1 arr by (metis append.assoc)
    finally show ?thesis
      using True
      by (simp add: select_fcfs_eq Let_def b1_def [symmetric] s1_def [symmetric]
          s2_def [symmetric] b2_def [symmetric])
  next
    case False
    then show ?thesis
      using pre1
      by (auto simp: select_fcfs_eq Let_def b1_def [symmetric])
  qed
  with arr show ?thesis
    unfolding s2_def s1_def b1_def by blast
qed

lemma apply_event_fifo_cong:
  assumes "fifo_q t = fifo_q s" "strategy t = strategy s"
  shows "fifo_q (apply_event e t) = fifo_q (apply_event e s)
     \<and> strategy (apply_event e t) = strategy (apply_event e s)"
  using assms
  by (cases e) (auto simp: proxy_classify_def change_def Let_def split: option.splits)

lemma apply_events_fifo_cong:
  assumes "fifo_q t = fifo_q s" "strategy t = strategy s"
  shows "fifo_q (apply_events evs t) = fifo_q (apply_events evs s)"
  using assms unfolding apply_events_def
proof (induction evs arbitrary: s t)
  case Nil
  then show ?case by simp
next
  case (Cons e evs)
  from apply_event_fifo_cong [OF Cons.prems, of e]
  have "fifo_q (fold apply_event evs (apply_event e t))
      = fifo_q (fold apply_event evs (apply_event e s))"
    by (intro Cons.IH) simp_all
  then show ?case by simp
qed

lemma select_sjf_inactive:
  "fst (select_sjf (s\<lparr>q_a := qa, q_b := qb\<rparr>)) = fst (select_sjf s)
   \<and> fifo_q (snd (select_sjf (s\<lparr>q_a := qa, q_b := qb\<rparr>))) = fifo_q (snd (select_sjf s))"
  by (simp add: select_sjf_eq Let_def)

lemma select_fcfs_inactive:
  "fst (select_fcfs evs (s\<lparr>q_a := qa, q_b := qb\<rparr>)) = fst (select_fcfs evs s)
   \<and> fifo_q (snd (select_fcfs evs (s\<lparr>q_a := qa, q_b := qb\<rparr>)))
       = fifo_q (snd (select_fcfs evs s))"
proof -
  have "fifo_q (apply_events evs
          (s\<lparr>q_a := qa, q_b := qb, fifo_q := drop (length (take_fitting 0 (fifo_q s))) (fifo_q s)\<rparr>))
      = fifo_q (apply_events evs
          (s\<lparr>fifo_q := drop (length (take_fitting 0 (fifo_q s))) (fifo_q s)\<rparr>))"
    by (rule apply_events_fifo_cong) simp_all
  then show ?thesis
    by (simp add: select_fcfs_eq Let_def)
qed

lemma select_fair_inactive:
  "fst (select_fair (s\<lparr>fifo_q := f\<rparr>)) = fst (select_fair s)
   \<and> q_a (snd (select_fair (s\<lparr>fifo_q := f\<rparr>))) = q_a (snd (select_fair s))
   \<and> q_b (snd (select_fair (s\<lparr>fifo_q := f\<rparr>))) = q_b (snd (select_fair s))
   \<and> last_turn (snd (select_fair (s\<lparr>fifo_q := f\<rparr>))) = last_turn (snd (select_fair s))"
  by (simp add: select_fair_eq Let_def fair_primary_def fair_secondary_def fair_turn_def)

text \<open>
  C3, as stated, fails. With requests waiting in \<open>q_a\<close> and \<open>q_b\<close> and an empty FIFO,
  a cycle under FCFS or under SJF selects nothing, calls nothing and leaves the state as
  it was, so the next cycle does the same; likewise a FAIR cycle ignores a non-empty
  FIFO.
\<close>

theorem stranded_items_counterexample:
  "q_a (stranded_state fcfs) \<noteq> [] \<and> q_b (stranded_state fcfs) \<noteq> []
   \<and> dispatcher_cycle [] (Inr []) (stranded_state fcfs) = Some ([], stranded_state fcfs)
   \<and> dispatcher_cycle [] (Inr []) (stranded_state sjf) = Some ([], stranded_state sjf)
   \<and> fifo_q (fifo_state fair) \<noteq> []
   \<and> dispatcher_cycle [] (Inr []) (fifo_state fair) = Some ([], fifo_state fair)"
  by (simp add: dispatcher_cycle_def select_batch_def select_fcfs_def select_sjf_def
      select_fair_def stranded_state_def fifo_state_def initial_state_def)

text \<open>
  C3, amended. A cycle reads only the queues of the active strategy. Under SJF the
  batch is non-empty exactly when the global FIFO is, the batch and the FIFO left are
  together the FIFO of before, \<open>q_a\<close> and \<open>q_b\<close> are as before, and with any other
  \<open>q_a\<close> and \<open>q_b\<close> the selection and the FIFO left are the same. Under FCFS the same
  holds, with the requests that arrive during the wait: the batch followed by the FIFO
  left is the FIFO of before followed by what the wait appended to it, nothing leaves
  \<open>q_a\<close> or \<open>q_b\<close> (they can only grow, by such arrivals), and with any other \<open>q_a\<close>
  and \<open>q_b\<close> the selection and the FIFO left are the same. Under FAIR the batch is
  non-empty exactly when \<open>q_a\<close> or \<open>q_b\<close> is, the batch and the two queues left are
  together the two queues of before, the FIFO is as before, and with any other FIFO the
  selection, the two queues and \<open>last_turn\<close> are the same. Non-emptiness is for queues
  holding admitted items, of 1 to \<open>MAX_BATCH\<close> sequences.
\<close>

theorem active_queues_only:
  assumes "valid_queues s"
  shows "(let sel = fst (select_batch evs s); b = batch sel; s' = snd (select_batch evs s);
              s1 = s\<lparr>fifo_q := drop (length (take_fitting 0 (fifo_q s))) (fifo_q s)\<rparr>
          in (strategy s = sjf \<longrightarrow>
                (b \<noteq> []) = (fifo_q s \<noteq> []) \<and> q_a s' = q_a s \<and> q_b s' = q_b s
                \<and> set b \<subseteq> set (fifo_q s)
                \<and> mset b + mset (fifo_q s') = mset (fifo_q s)
                \<and> (\<forall>qa qb. fst (select_batch evs (s\<lparr>q_a := qa, q_b := qb\<rparr>)) = sel
                      \<and> fifo_q (snd (select_batch evs (s\<lparr>q_a := qa, q_b := qb\<rparr>))) = fifo_q s'))
           \<and> (strategy s = fcfs \<longrightarrow>
                (b \<noteq> []) = (fifo_q s \<noteq> []) \<and> prefix (q_a s) (q_a s') \<and> prefix (q_b s) (q_b s')
                \<and> (\<exists>arrived. fifo_q (apply_events evs s1) = fifo_q s1 @ arrived
                      \<and> b @ fifo_q s' = fifo_q s @ (if waited sel then arrived else [])
                      \<and> set b \<subseteq> set (fifo_q s) \<union> set arrived)
                \<and> (\<forall>qa qb. fst (select_batch evs (s\<lparr>q_a := qa, q_b := qb\<rparr>)) = sel
                      \<and> fifo_q (snd (select_batch evs (s\<lparr>q_a := qa, q_b := qb\<rparr>))) = fifo_q s'))
           \<and> (strategy s = fair \<longrightarrow>
                (b \<noteq> []) = (q_a s \<noteq> [] \<or> q_b s \<noteq> []) \<and> fifo_q s' = fifo_q s
                \<and> set b \<subseteq> set (q_a s) \<union> set (q_b s)
                \<and> mset b + mset (q_a s') + mset (q_b s') = mset (q_a s) + mset (q_b s)
                \<and> (\<forall>f. fst (select_batch evs (s\<lparr>fifo_q := f\<rparr>)) = sel
                      \<and> q_a (snd (select_batch evs (s\<lparr>fifo_q := f\<rparr>))) = q_a s'
                      \<and> q_b (snd (select_batch evs (s\<lparr>fifo_q := f\<rparr>))) = q_b s'
                      \<and> last_turn (snd (select_batch evs (s\<lparr>fifo_q := f\<rparr>))) = last_turn s')))"
proof -
  define sel where "sel = fst (select_batch evs s)"
  define b where "b = batch sel"
  define s' where "s' = snd (select_batch evs s)"
  define s1 where "s1 = s\<lparr>fifo_q := drop (length (take_fitting 0 (fifo_q s))) (fifo_q s)\<rparr>"
  from assms have v: "list_all valid_item (fifo_q s)" "list_all valid_item (q_a s)"
      "list_all valid_item (q_b s)"
    by (simp_all add: valid_queues_def)
  have sjf: "(b \<noteq> []) = (fifo_q s \<noteq> []) \<and> q_a s' = q_a s \<and> q_b s' = q_b s
      \<and> set b \<subseteq> set (fifo_q s)
      \<and> mset b + mset (fifo_q s') = mset (fifo_q s)
      \<and> (\<forall>qa qb. fst (select_batch evs (s\<lparr>q_a := qa, q_b := qb\<rparr>)) = sel
            \<and> fifo_q (snd (select_batch evs (s\<lparr>q_a := qa, q_b := qb\<rparr>))) = fifo_q s')"
    if st: "strategy s = sjf"
  proof -
    have e: "select_batch evs s = select_sjf s"
      using st by (simp add: select_batch_def)
    have e': "select_batch evs (s\<lparr>q_a := qa, q_b := qb\<rparr>) = select_sjf (s\<lparr>q_a := qa, q_b := qb\<rparr>)"
      for qa qb
      using st by (simp add: select_batch_def)
    have 1: "(b \<noteq> []) = (fifo_q s \<noteq> []) \<and> q_a s' = q_a s \<and> q_b s' = q_b s"
      unfolding b_def sel_def s'_def e using v(1)
      by (simp add: select_sjf_eq Let_def take_fitting_Nil_iff list_all_sorted_items
          sorted_items_Nil_iff)
    have 2: "mset b + mset (fifo_q s') = mset (fifo_q s)"
      unfolding b_def sel_def s'_def e by (rule select_sjf_drawn)
    have 3: "set b \<subseteq> set (fifo_q s)"
      using 2 by (metis mset_subset_eq_add_left set_mset_mono set_mset_mset)
    have 4: "fst (select_batch evs (s\<lparr>q_a := qa, q_b := qb\<rparr>)) = sel
        \<and> fifo_q (snd (select_batch evs (s\<lparr>q_a := qa, q_b := qb\<rparr>))) = fifo_q s'" for qa qb
      unfolding sel_def s'_def e e' by (rule select_sjf_inactive)
    from 1 2 3 4 show ?thesis by blast
  qed
  have fcfs: "(b \<noteq> []) = (fifo_q s \<noteq> []) \<and> prefix (q_a s) (q_a s') \<and> prefix (q_b s) (q_b s')
      \<and> (\<exists>arrived. fifo_q (apply_events evs s1) = fifo_q s1 @ arrived
            \<and> b @ fifo_q s' = fifo_q s @ (if waited sel then arrived else [])
            \<and> set b \<subseteq> set (fifo_q s) \<union> set arrived)
      \<and> (\<forall>qa qb. fst (select_batch evs (s\<lparr>q_a := qa, q_b := qb\<rparr>)) = sel
            \<and> fifo_q (snd (select_batch evs (s\<lparr>q_a := qa, q_b := qb\<rparr>))) = fifo_q s')"
    if st: "strategy s = fcfs"
  proof -
    have e: "select_batch evs s = select_fcfs evs s"
      using st by (simp add: select_batch_def)
    have e': "select_batch evs (s\<lparr>q_a := qa, q_b := qb\<rparr>) = select_fcfs evs (s\<lparr>q_a := qa, q_b := qb\<rparr>)"
      for qa qb
      using st by (simp add: select_batch_def)
    have 1: "(b \<noteq> []) = (fifo_q s \<noteq> []) \<and> prefix (q_a s) (q_a s') \<and> prefix (q_b s) (q_b s')"
      unfolding b_def sel_def s'_def e
      using v(1) apply_events_q_a [of s1 evs] apply_events_q_b [of s1 evs]
      by (simp add: select_fcfs_eq Let_def take_fitting_Nil_iff s1_def)
    from select_fcfs_drawn [of evs s] obtain arrived where
      a: "fifo_q (apply_events evs s1) = fifo_q s1 @ arrived"
      and d: "b @ fifo_q s' = fifo_q s @ (if waited sel then arrived else [])"
      unfolding b_def sel_def s'_def e s1_def by auto
    have "set b \<subseteq> set (b @ fifo_q s')" by simp
    also have "\<dots> \<subseteq> set (fifo_q s) \<union> set arrived"
      unfolding d by auto
    finally have 3: "set b \<subseteq> set (fifo_q s) \<union> set arrived" .
    have 4: "fst (select_batch evs (s\<lparr>q_a := qa, q_b := qb\<rparr>)) = sel
        \<and> fifo_q (snd (select_batch evs (s\<lparr>q_a := qa, q_b := qb\<rparr>))) = fifo_q s'" for qa qb
      unfolding sel_def s'_def e e' by (rule select_fcfs_inactive)
    from 1 a d 3 4 show ?thesis by blast
  qed
  have fair: "(b \<noteq> []) = (q_a s \<noteq> [] \<or> q_b s \<noteq> []) \<and> fifo_q s' = fifo_q s
      \<and> set b \<subseteq> set (q_a s) \<union> set (q_b s)
      \<and> mset b + mset (q_a s') + mset (q_b s') = mset (q_a s) + mset (q_b s)
      \<and> (\<forall>f. fst (select_batch evs (s\<lparr>fifo_q := f\<rparr>)) = sel
            \<and> q_a (snd (select_batch evs (s\<lparr>fifo_q := f\<rparr>))) = q_a s'
            \<and> q_b (snd (select_batch evs (s\<lparr>fifo_q := f\<rparr>))) = q_b s'
            \<and> last_turn (snd (select_batch evs (s\<lparr>fifo_q := f\<rparr>))) = last_turn s')"
    if st: "strategy s = fair"
  proof -
    have e: "select_batch evs s = select_fair s"
      using st by (simp add: select_batch_def)
    have e': "select_batch evs (s\<lparr>fifo_q := f\<rparr>) = select_fair (s\<lparr>fifo_q := f\<rparr>)" for f
      using st by (simp add: select_batch_def)
    have 1: "(b \<noteq> []) = (q_a s \<noteq> [] \<or> q_b s \<noteq> []) \<and> fifo_q s' = fifo_q s"
      unfolding b_def sel_def s'_def e using v(2,3)
      by (auto simp: select_fair_eq Let_def take_fitting_Nil_iff fair_primary_def
          fair_secondary_def)
    have 2: "mset b + mset (q_a s') + mset (q_b s') = mset (q_a s) + mset (q_b s)"
      unfolding b_def sel_def s'_def e by (rule select_fair_drawn)
    have "mset b \<subseteq># mset (q_a s) + mset (q_b s)"
      using 2 by (metis add.assoc mset_subset_eq_add_left)
    then have "set_mset (mset b) \<subseteq> set_mset (mset (q_a s) + mset (q_b s))"
      by (rule set_mset_mono)
    then have 3: "set b \<subseteq> set (q_a s) \<union> set (q_b s)"
      by simp
    have 4: "fst (select_batch evs (s\<lparr>fifo_q := f\<rparr>)) = sel
        \<and> q_a (snd (select_batch evs (s\<lparr>fifo_q := f\<rparr>))) = q_a s'
        \<and> q_b (snd (select_batch evs (s\<lparr>fifo_q := f\<rparr>))) = q_b s'
        \<and> last_turn (snd (select_batch evs (s\<lparr>fifo_q := f\<rparr>))) = last_turn s'" for f
      unfolding sel_def s'_def e e' by (rule select_fair_inactive)
    from 1 2 3 4 show ?thesis by blast
  qed
  have 1: "strategy s = sjf \<longrightarrow> (b \<noteq> []) = (fifo_q s \<noteq> []) \<and> q_a s' = q_a s \<and> q_b s' = q_b s
      \<and> set b \<subseteq> set (fifo_q s)
      \<and> mset b + mset (fifo_q s') = mset (fifo_q s)
      \<and> (\<forall>qa qb. fst (select_batch evs (s\<lparr>q_a := qa, q_b := qb\<rparr>)) = sel
            \<and> fifo_q (snd (select_batch evs (s\<lparr>q_a := qa, q_b := qb\<rparr>))) = fifo_q s')"
    using sjf by (rule impI)
  have 2: "strategy s = fcfs \<longrightarrow> (b \<noteq> []) = (fifo_q s \<noteq> []) \<and> prefix (q_a s) (q_a s')
      \<and> prefix (q_b s) (q_b s')
      \<and> (\<exists>arrived. fifo_q (apply_events evs s1) = fifo_q s1 @ arrived
            \<and> b @ fifo_q s' = fifo_q s @ (if waited sel then arrived else [])
            \<and> set b \<subseteq> set (fifo_q s) \<union> set arrived)
      \<and> (\<forall>qa qb. fst (select_batch evs (s\<lparr>q_a := qa, q_b := qb\<rparr>)) = sel
            \<and> fifo_q (snd (select_batch evs (s\<lparr>q_a := qa, q_b := qb\<rparr>))) = fifo_q s')"
    using fcfs by (rule impI)
  have 3: "strategy s = fair \<longrightarrow> (b \<noteq> []) = (q_a s \<noteq> [] \<or> q_b s \<noteq> []) \<and> fifo_q s' = fifo_q s
      \<and> set b \<subseteq> set (q_a s) \<union> set (q_b s)
      \<and> mset b + mset (q_a s') + mset (q_b s') = mset (q_a s) + mset (q_b s)
      \<and> (\<forall>f. fst (select_batch evs (s\<lparr>fifo_q := f\<rparr>)) = sel
            \<and> q_a (snd (select_batch evs (s\<lparr>fifo_q := f\<rparr>))) = q_a s'
            \<and> q_b (snd (select_batch evs (s\<lparr>fifo_q := f\<rparr>))) = q_b s'
            \<and> last_turn (snd (select_batch evs (s\<lparr>fifo_q := f\<rparr>))) = last_turn s')"
    using fair by (rule impI)
  show ?thesis
    unfolding Let_def sel_def [symmetric] b_def [symmetric] s'_def [symmetric] s1_def [symmetric]
    by (intro conjI 1 2 3)
qed

theorem active_queues_only_witness:
  "batch (fst (select_batch [] (fifo_state sjf))) \<noteq> []
   \<and> q_a (snd (select_batch [] (stranded_state sjf))) = [item_r1]
   \<and> batch (fst (select_batch [] (stranded_state fair))) = [item_r1]"
  using active_queues_only [of "fifo_state sjf" "[]"] active_queues_only [of "stranded_state sjf" "[]"]
    active_queues_only [of "stranded_state fair" "[]"]
  by (simp add: Let_def valid_queues_def valid_item_def select_batch_def select_sjf_def
      select_fair_def sorted_items_def Item_lt_def fifo_state_def stranded_state_def
      initial_state_def item_r1_def item_r2_def item_r3_def MAX_BATCH_def)

section \<open>Admission\<close>

text \<open>
  C9. A request with no sequence, or with more than \<open>MAX_BATCH = 5\<close>, is answered
  \<open>HTTPException 400\<close> with the detail \<open>need_msg\<close> ("Need 1-5 sequences", with an en
  dash); no item is made and the state, so each of the three queues, is as before.
\<close>

theorem bounds_violation_rejected:
  assumes "length sequences = 0 \<or> MAX_BATCH < length sequences"
  shows "proxy_classify new_id now sequences x_customer_id s = (Inl (HTTPException 400 need_msg), s)
     \<and> apply_event (Submit new_id now sequences x_customer_id) s = s"
  using assms by (auto simp: proxy_classify_def)

theorem bounds_violation_rejected_witness:
  "proxy_classify ''r4'' 4 [] (Some ''A'') (fifo_state fair)
     = (Inl (HTTPException 400 need_msg), fifo_state fair)
   \<and> proxy_classify ''r4'' 4 [''a'', ''a'', ''a'', ''a'', ''a'', ''a''] (Some ''A'') (fifo_state fair)
     = (Inl (HTTPException 400 need_msg), fifo_state fair)"
  using bounds_violation_rejected [of "[]" "''r4''" 4 "Some ''A''" "fifo_state fair"]
    bounds_violation_rejected [of "[''a'', ''a'', ''a'', ''a'', ''a'', ''a'']" "''r4''" 4 "Some ''A''"
      "fifo_state fair"]
  by (simp add: MAX_BATCH_def)

lemma py_max_Some: "xs \<noteq> [] \<Longrightarrow> \<exists>m. py_max xs = Some m"
  by (cases xs) simp_all

lemma Item_init_Some:
  "ss \<noteq> [] \<Longrightarrow> \<exists>m. Item_init new_id now c ss
      = Some \<lparr>item_id = new_id, cid = c, seqs = ss, maxlen = m, ts = now\<rparr>"
  using py_max_Some [of "map length ss"] by (auto simp: Item_init_def)

text \<open>
  C8, as stated, fails. Under FAIR a request with the header value \<open>c\<close> gets the
  customer id \<open>C\<close>, and goes to \<open>q_b\<close>; \<open>q_a\<close> stays empty.
\<close>

theorem other_customer_counterexample:
  "upper ''c'' = ''C''
   \<and> q_a (snd (proxy_classify ''r4'' 4 [''x''] (Some ''c'') (initial_state fair))) = []
   \<and> map cid (q_b (snd (proxy_classify ''r4'' 4 [''x''] (Some ''c'') (initial_state fair)))) = [''C'']"
  by (simp add: proxy_classify_def Item_init_def upper_def upper_char_def initial_state_def
      MAX_BATCH_def Let_def)

text \<open>
  C8, amended. An accepted request becomes an item with the uppercased header value as
  its customer id, \<open>A\<close> when the header is absent. Under FAIR the item is appended to
  \<open>q_a\<close> when that id is exactly \<open>A\<close>, and to \<open>q_b\<close> for every other id, \<open>B\<close> or not:
  the split is binary, and values outside \<open>{A, B}\<close> share the queue of \<open>B\<close>. Under the
  other strategies it is appended to the global FIFO.
\<close>

theorem fair_bucketing:
  assumes "1 \<le> length sequences" "length sequences \<le> MAX_BATCH"
  shows "(let c = upper (case x_customer_id of None \<Rightarrow> ''A'' | Some h \<Rightarrow> h);
              r = proxy_classify new_id now sequences x_customer_id s;
              s' = snd r
          in \<exists>itm. fst r = Inr itm \<and> item_id itm = new_id \<and> cid itm = c \<and> seqs itm = sequences
               \<and> (strategy s = fair \<and> c = ''A'' \<longrightarrow>
                    q_a s' = q_a s @ [itm] \<and> q_b s' = q_b s \<and> fifo_q s' = fifo_q s)
               \<and> (strategy s = fair \<and> c \<noteq> ''A'' \<longrightarrow>
                    q_b s' = q_b s @ [itm] \<and> q_a s' = q_a s \<and> fifo_q s' = fifo_q s)
               \<and> (strategy s \<noteq> fair \<longrightarrow>
                    fifo_q s' = fifo_q s @ [itm] \<and> q_a s' = q_a s \<and> q_b s' = q_b s))
         \<and> upper ''A'' = ''A'' \<and> upper ''a'' = ''A'' \<and> upper ''b'' = ''B''"
proof -
  from assms have "sequences \<noteq> []" by auto
  from Item_init_Some [OF this] obtain m where
    "Item_init new_id now (upper (case x_customer_id of None \<Rightarrow> ''A'' | Some h \<Rightarrow> h)) sequences
       = Some \<lparr>item_id = new_id, cid = upper (case x_customer_id of None \<Rightarrow> ''A'' | Some h \<Rightarrow> h),
           seqs = sequences, maxlen = m, ts = now\<rparr>"
    by blast
  with assms show ?thesis
    by (simp add: proxy_classify_def Let_def upper_def upper_char_def)
qed

theorem fair_bucketing_witness:
  "map cid (q_a (snd (proxy_classify ''r4'' 4 [''x''] None (initial_state fair)))) = [''A'']
   \<and> map cid (q_a (snd (proxy_classify ''r4'' 4 [''x''] (Some ''a'') (initial_state fair)))) = [''A'']
   \<and> map cid (q_b (snd (proxy_classify ''r4'' 4 [''x''] (Some ''b'') (initial_state fair)))) = [''B'']
   \<and> map cid (q_b (snd (proxy_classify ''r4'' 4 [''x''] (Some ''zz'') (initial_state fair)))) = [''ZZ'']"
  using fair_bucketing [of "[''x'']" None "''r4''" 4 "initial_state fair"]
    fair_bucketing [of "[''x'']" "Some ''a''" "''r4''" 4 "initial_state fair"]
    fair_bucketing [of "[''x'']" "Some ''b''" "''r4''" 4 "initial_state fair"]
    fair_bucketing [of "[''x'']" "Some ''zz''" "''r4''" 4 "initial_state fair"]
  by (simp add: proxy_classify_def Item_init_def upper_def upper_char_def initial_state_def
      MAX_BATCH_def Let_def)

section \<open>The failure path\<close>

lemma fail_batch_apply:
  "fail_batch e b f i = (if i \<in> item_id ` set b \<and> \<not> fut_done (f i) then Exception e else f i)"
  by (induction b arbitrary: f) auto

lemma dispatcher_cycle_Inl:
  "batch (fst (select_batch evs s)) \<noteq> [] \<Longrightarrow>
   dispatcher_cycle evs (Inl e) s =
     Some (batch (fst (select_batch evs s)),
           (snd (select_batch evs s))\<lparr>futs :=
              fail_batch e (batch (fst (select_batch evs s))) (futs (snd (select_batch evs s)))\<rparr>)"
  by (simp add: dispatcher_cycle_def split: prod.splits)

text \<open>
  C5. When the downstream call of a cycle fails with the text \<open>e\<close>, the cycle ends
  normally, with the state that selection left and new futures, and the loop goes on
  from there. Every item of the batch whose future was not done now holds
  \<open>Exception e\<close>; a future that was done keeps what it held, and so do the futures of
  all other items. The handler waiting on a failed item answers 500 with the detail
  "Downstream service error: " followed by \<open>e\<close>.
\<close>

theorem failure_path:
  assumes "batch (fst (select_batch evs s)) \<noteq> []"
  shows "(let b = batch (fst (select_batch evs s)); s1 = snd (select_batch evs s);
              s' = s1\<lparr>futs := fail_batch e b (futs s1)\<rparr>
          in dispatcher_cycle evs (Inl e) s = Some (b, s')
             \<and> (\<forall>rest. run (Cycle evs (Inl e) # rest) s = run rest s')
             \<and> (\<forall>itm \<in> set b. futs s' (item_id itm) =
                   (if fut_done (futs s1 (item_id itm)) then futs s1 (item_id itm) else Exception e))
             \<and> (\<forall>i. i \<notin> item_id ` set b \<longrightarrow> futs s' i = futs s1 i)
             \<and> (\<forall>itm \<in> set b. \<not> fut_done (futs s1 (item_id itm)) \<longrightarrow>
                   proxy_classify_answer latency (futs s' (item_id itm)) =
                     Some (Inl (HTTPException 500 (''Downstream service error: '' @ e)))))"
  unfolding Let_def
  by (simp add: dispatcher_cycle_Inl [OF assms] fail_batch_apply proxy_classify_answer_def)

theorem failure_path_witness:
  "map_option fst (dispatcher_cycle [] (Inl ''boom'') (fifo_state sjf)) = Some [item_r1]
   \<and> map_option (\<lambda>r. futs (snd r) ''r1'') (dispatcher_cycle [] (Inl ''boom'') (fifo_state sjf))
       = Some (Exception ''boom'')
   \<and> proxy_classify_answer 7 (Exception ''boom'')
       = Some (Inl (HTTPException 500 ''Downstream service error: boom''))
   \<and> map_option (\<lambda>r. futs (snd r) ''r1'') (dispatcher_cycle [] (Inl ''boom'') cancelled_state)
       = Some Cancelled"
  using failure_path [of "[]" "fifo_state sjf" "''boom''" 7]
    failure_path [of "[]" cancelled_state "''boom''" 7]
  by (simp add: Let_def select_batch_def select_sjf_def select_fcfs_def sorted_items_def
      Item_lt_def fifo_state_def cancelled_state_def initial_state_def apply_events_def
      item_r1_def item_r2_def item_r3_def MAX_BATCH_def proxy_classify_answer_def)

section \<open>FCFS\<close>

lemma take_fitting_append:
  "t + batch_size xs \<le> MAX_BATCH \<Longrightarrow>
   take_fitting t (xs @ ys) = xs @ take_fitting (t + batch_size xs) ys"
  by (induction xs arbitrary: t) (simp_all add: add.assoc)

text \<open>
  C7. Under FCFS the first pass takes from the head of the FIFO while each item fits
  (\<open>b1\<close>). The wait, and the second pass after it, happen exactly when \<open>b1\<close> is not
  empty and below \<open>MAX_BATCH\<close>; the second pass again takes from the head while each
  fits (\<open>b2\<close>). There is one wait at most: the selection is the first pass alone or the
  first pass, the events of one wait and the second pass. The batch followed by what is
  left in the FIFO is the FIFO of before followed by what arrived during the wait, and
  the batch is the longest front part of it that fits: items enter batches in FIFO
  order.
\<close>

theorem fcfs_micro_batching:
  assumes "strategy s = fcfs"
  shows "(let sel = fst (select_batch evs s); s' = snd (select_batch evs s);
              b1 = take_fitting 0 (fifo_q s);
              s1 = s\<lparr>fifo_q := drop (length b1) (fifo_q s)\<rparr>;
              s2 = apply_events evs s1;
              b2 = take_fitting (batch_size b1) (fifo_q s2)
          in fifo_q s = b1 @ fifo_q s1
             \<and> waited sel = (b1 \<noteq> [] \<and> batch_size b1 < MAX_BATCH)
             \<and> (\<not> waited sel \<longrightarrow> batch sel = b1 \<and> s' = s1)
             \<and> (waited sel \<longrightarrow>
                  batch sel = b1 @ b2 \<and> fifo_q s2 = b2 @ fifo_q s'
                  \<and> s' = s2\<lparr>fifo_q := fifo_q s'\<rparr>)
             \<and> (\<exists>arrived. fifo_q s2 = fifo_q s1 @ arrived
                  \<and> batch sel @ fifo_q s' = fifo_q s @ (if waited sel then arrived else []))
             \<and> batch sel = take_fitting 0 (batch sel @ fifo_q s'))"
proof -
  define b1 where "b1 = take_fitting 0 (fifo_q s)"
  define s1 where "s1 = s\<lparr>fifo_q := drop (length b1) (fifo_q s)\<rparr>"
  define s2 where "s2 = apply_events evs s1"
  define b2 where "b2 = take_fitting (batch_size b1) (fifo_q s2)"
  have pre1: "fifo_q s = b1 @ fifo_q s1"
    by (simp add: s1_def b1_def take_fitting_prefix)
  have pre2: "fifo_q s2 = b2 @ drop (length b2) (fifo_q s2)"
    by (simp add: b2_def take_fitting_prefix)
  obtain arrived where arr: "fifo_q s2 = fifo_q s1 @ arrived"
    using apply_events_fifo [of s1 evs] by (auto simp: s2_def prefix_def)
  have bound1: "batch_size b1 \<le> MAX_BATCH"
    unfolding b1_def by (rule take_fitting_bound0)
  have fit1: "take_fitting 0 (b1 @ ys) = b1 @ take_fitting (batch_size b1) ys" for ys
    using take_fitting_append [of 0 b1 ys] bound1 by simp
  show ?thesis
  proof (cases "b1 \<noteq> [] \<and> batch_size b1 < MAX_BATCH")
    case True
    then have sel: "select_batch evs s =
        (\<lparr>batch = b1 @ b2, total_sequences = batch_size (b1 @ b2), waited = True\<rparr>,
         s2\<lparr>fifo_q := drop (length b2) (fifo_q s2)\<rparr>)"
      using assms
      by (simp add: select_batch_def select_fcfs_eq Let_def b1_def [symmetric]
          s1_def [symmetric] s2_def [symmetric] b2_def [symmetric])
    have whole: "(b1 @ b2) @ drop (length b2) (fifo_q s2) = fifo_q s @ arrived"
      using pre1 pre2 arr by simp
    have "take_fitting 0 ((b1 @ b2) @ drop (length b2) (fifo_q s2)) = b1 @ b2"
      using fit1 [of "fifo_q s2"] pre2 by (simp add: b2_def [symmetric])
    with True pre1 pre2 arr whole show ?thesis
      unfolding Let_def b1_def [symmetric] s1_def [symmetric] s2_def [symmetric]
        b2_def [symmetric] sel
      by (auto simp del: append_assoc)
  next
    case False
    then have sel: "select_batch evs s =
        (\<lparr>batch = b1, total_sequences = batch_size b1, waited = False\<rparr>, s1)"
      using assms
      by (auto simp: select_batch_def select_fcfs_eq Let_def b1_def [symmetric]
          s1_def [symmetric])
    have "take_fitting 0 (b1 @ fifo_q s1) = b1"
      unfolding pre1 [symmetric] by (simp add: b1_def)
    with False pre1 arr show ?thesis
      unfolding Let_def b1_def [symmetric] s1_def [symmetric] s2_def [symmetric]
        b2_def [symmetric] sel
      by auto
  qed
qed


theorem fcfs_micro_batching_witness:
  "waited (fst (select_batch [Submit ''r4'' 4 [''x''] None] lone_state))
   \<and> map item_id (batch (fst (select_batch [Submit ''r4'' 4 [''x''] None] lone_state)))
       = [''r1'', ''r4'']
   \<and> \<not> waited (fst (select_batch [Submit ''r4'' 4 [''x''] None] (initial_state fcfs)))
   \<and> batch (fst (select_batch [Submit ''r4'' 4 [''x''] None] (initial_state fcfs))) = []"
  using fcfs_micro_batching [of lone_state "[Submit ''r4'' 4 [''x''] None]"]
    fcfs_micro_batching [of "initial_state fcfs" "[Submit ''r4'' 4 [''x''] None]"]
  by (simp add: Let_def select_batch_def select_fcfs_def apply_events_def proxy_classify_def
      Item_init_def upper_def upper_char_def lone_state_def initial_state_def item_r1_def
      MAX_BATCH_def)

section \<open>Invariants of the server state\<close>

lemma set_fold_remove1: "set (fold remove1 b q) \<subseteq> set q"
proof (induction b arbitrary: q)
  case Nil
  then show ?case by simp
next
  case (Cons x b)
  have "set (fold remove1 b (remove1 x q)) \<subseteq> set (remove1 x q)" by (rule Cons.IH)
  also have "\<dots> \<subseteq> set q" by (rule set_remove1_subset)
  finally show ?case by simp
qed

lemma valid_queues_subset:
  assumes "valid_queues s" "set (fifo_q s') \<subseteq> set (fifo_q s)" "set (q_a s') \<subseteq> set (q_a s)"
    "set (q_b s') \<subseteq> set (q_b s)"
  shows "valid_queues s'"
  using assms unfolding valid_queues_def list_all_iff by auto

lemma valid_queues_initial: "valid_queues (initial_state DEFAULT)"
  by (simp add: valid_queues_def initial_state_def)

lemma valid_queues_apply_event: "valid_queues s \<Longrightarrow> valid_queues (apply_event e s)"
proof (cases e)
  case (Submit new_id now sequences x_customer_id)
  assume v: "valid_queues s"
  show ?thesis
  proof (cases "1 \<le> length sequences \<and> length sequences \<le> MAX_BATCH")
    case True
    then have "sequences \<noteq> []" by auto
    from Item_init_Some [OF this] obtain m where
      "Item_init new_id now (upper (case x_customer_id of None \<Rightarrow> ''A'' | Some h \<Rightarrow> h)) sequences
         = Some \<lparr>item_id = new_id, cid = upper (case x_customer_id of None \<Rightarrow> ''A'' | Some h \<Rightarrow> h),
             seqs = sequences, maxlen = m, ts = now\<rparr>"
      by blast
    with True v Submit show ?thesis
      by (simp add: proxy_classify_def Let_def valid_queues_def valid_item_def)
  next
    case False
    with v Submit show ?thesis by (simp add: proxy_classify_def)
  qed
next
  case (Change st)
  assume "valid_queues s"
  with Change show ?thesis by (simp add: change_def valid_queues_def)
qed

lemma valid_queues_apply_events: "valid_queues s \<Longrightarrow> valid_queues (apply_events evs s)"
  unfolding apply_events_def
  by (induction evs arbitrary: s) (simp_all add: valid_queues_apply_event)

lemma valid_queues_select_batch:
  assumes "valid_queues s"
  shows "valid_queues (snd (select_batch evs s))"
proof (cases "strategy s")
  case sjf
  show ?thesis
    by (rule valid_queues_subset [OF assms])
       (simp_all add: sjf select_batch_def select_sjf_eq Let_def set_fold_remove1)
next
  case fair
  show ?thesis
    by (rule valid_queues_subset [OF assms])
       (simp_all add: fair select_batch_def select_fair_eq Let_def set_drop_subset
          fair_primary_def fair_secondary_def)
next
  case fcfs
  define s1 where "s1 = s\<lparr>fifo_q := drop (length (take_fitting 0 (fifo_q s))) (fifo_q s)\<rparr>"
  define s2 where "s2 = apply_events evs s1"
  have v1: "valid_queues s1"
    by (rule valid_queues_subset [OF assms]) (simp_all add: s1_def set_drop_subset)
  then have v2: "valid_queues s2"
    unfolding s2_def by (rule valid_queues_apply_events)
  have v3: "valid_queues (s2\<lparr>fifo_q := drop n (fifo_q s2)\<rparr>)" for n
    by (rule valid_queues_subset [OF v2]) (simp_all add: set_drop_subset)
  from v1 v3 show ?thesis
    by (simp add: fcfs select_batch_def select_fcfs_eq Let_def s1_def [symmetric]
        s2_def [symmetric])
qed

lemma dispatcher_cycle_state:
  "dispatcher_cycle evs response s = Some (b, s') \<Longrightarrow>
     \<exists>f. s' = (snd (select_batch evs s))\<lparr>futs := f\<rparr>"
  by (auto simp: dispatcher_cycle_def split: prod.splits if_splits sum.splits option.splits)
     (metis state.surjective state.update_convs(6))

lemma valid_queues_futs [simp]: "valid_queues (s\<lparr>futs := f\<rparr>) = valid_queues s"
  by (simp add: valid_queues_def)

lemma valid_queues_dispatcher_cycle:
  "valid_queues s \<Longrightarrow> dispatcher_cycle evs response s = Some (b, s') \<Longrightarrow> valid_queues s'"
  using dispatcher_cycle_state [of evs response s b s'] valid_queues_select_batch [of s evs]
  by auto

lemma valid_queues_run: "valid_queues s \<Longrightarrow> run steps s = Some s' \<Longrightarrow> valid_queues s'"
proof (induction steps s rule: run.induct)
  case (1 s)
  then show ?case by simp
next
  case (2 e rest s)
  then show ?case by (simp add: valid_queues_apply_event)
next
  case (3 evs response rest s)
  then show ?case
    by (auto split: option.splits dest: valid_queues_dispatcher_cycle)
qed

lemma last_turn_apply_event [simp]: "last_turn (apply_event e s) = last_turn s"
  by (cases e) (simp_all add: proxy_classify_def change_def Let_def split: option.splits)

lemma last_turn_apply_events [simp]: "last_turn (apply_events evs s) = last_turn s"
  unfolding apply_events_def by (induction evs arbitrary: s) simp_all

lemma last_turn_select_batch:
  "last_turn (snd (select_batch evs s)) =
     (if strategy s = fair \<and> take_fitting 0 (fair_primary s) \<noteq> [] then fair_turn s
      else last_turn s)"
  by (cases "strategy s")
     (auto simp: select_batch_def select_sjf_eq select_fair_eq select_fcfs_eq Let_def
        fair_primary_def)


section \<open>FAIR\<close>

lemma fair_turn_cases: "fair_turn s = ''A'' \<or> fair_turn s = ''B''"
  by (simp add: fair_turn_def)

lemma hd_take_fitting:
  "q \<noteq> [] \<Longrightarrow> length (seqs (hd q)) \<le> MAX_BATCH \<Longrightarrow>
     take_fitting 0 q \<noteq> [] \<and> hd (take_fitting 0 q) = hd q"
  by (cases q) simp_all

lemma take_fitting_blocked:
  "q = [] \<or> MAX_BATCH < length (seqs (hd q)) \<Longrightarrow> take_fitting 0 q = []"
  by (cases q) auto

lemma fair_opens:
  assumes "valid_queues s" "strategy s = fair" "fair_primary s \<noteq> []"
  shows "batch (fst (select_batch evs s)) \<noteq> []"
    and "hd (batch (fst (select_batch evs s))) = hd (fair_primary s)"
    and "(cid (hd (batch (fst (select_batch evs s)))) = ''A'') = (fair_turn s = ''A'')"
    and "last_turn (snd (select_batch evs s)) = fair_turn s"
proof -
  note ne = assms(3)
  from assms have v: "list_all valid_item (fair_primary s)"
    by (simp add: fair_primary_def valid_queues_def)
  with ne have "length (seqs (hd (fair_primary s))) \<le> MAX_BATCH"
    by (cases "fair_primary s") (simp_all add: valid_item_def)
  from hd_take_fitting [OF ne this]
  have bp: "take_fitting 0 (fair_primary s) \<noteq> []"
    "hd (take_fitting 0 (fair_primary s)) = hd (fair_primary s)"
    by simp_all
  from ne have "q_a s \<noteq> [] \<or> q_b s \<noteq> []"
    by (auto simp: fair_primary_def split: if_splits)
  then have b: "batch (fst (select_batch evs s)) =
      take_fitting 0 (fair_primary s)
        @ take_fitting (batch_size (take_fitting 0 (fair_primary s))) (fair_secondary s)"
    using assms by (simp add: select_batch_def select_fair_eq Let_def)
  show "batch (fst (select_batch evs s)) \<noteq> []"
    using b bp by simp
  show hd: "hd (batch (fst (select_batch evs s))) = hd (fair_primary s)"
    using b bp by simp
  have "hd (fair_primary s) \<in> set (fair_primary s)"
    using ne by simp
  with assms(1) have "(cid (hd (fair_primary s)) = ''A'') = (fair_turn s = ''A'')"
    by (auto simp: valid_queues_def list_all_iff fair_primary_def split: if_splits)
  then show "(cid (hd (batch (fst (select_batch evs s)))) = ''A'') = (fair_turn s = ''A'')"
    unfolding hd .
  show "last_turn (snd (select_batch evs s)) = fair_turn s"
    using assms(2) bp by (simp add: last_turn_select_batch)
qed

text \<open>
  C6. Under FAIR the turn is \<open>A\<close> when \<open>last_turn\<close> is \<open>B\<close>, and \<open>B\<close> otherwise; the
  primary queue is the one of the turn. The batch is what draining the primary queue
  from its head takes (\<open>bp\<close>), followed by what draining the secondary queue then takes
  (\<open>bs\<close>), and both queues keep the rest. When the primary queue is not empty and its
  head fits, that head opens the batch and \<open>last_turn\<close> becomes the turn; when it is empty
  or its head does not fit, nothing is taken from it, \<open>last_turn\<close> stays and the batch is
  drawn from the secondary queue alone. So for two cycles in a row under FAIR, with
  admitted items and both queues non-empty at each, whatever arrives in between: the
  first batch opens with the class of the turn and the second with the other class.
\<close>

theorem fair_alternation:
  assumes "strategy s = fair"
  shows "(let b = batch (fst (select_batch evs s)); s' = snd (select_batch evs s);
              bp = take_fitting 0 (fair_primary s);
              bs = take_fitting (batch_size bp) (fair_secondary s)
          in fair_turn s = (if last_turn s = ''B'' then ''A'' else ''B'')
             \<and> fair_primary s = (if fair_turn s = ''A'' then q_a s else q_b s)
             \<and> fair_secondary s = (if fair_turn s = ''A'' then q_b s else q_a s)
             \<and> b = bp @ bs
             \<and> fair_primary s = bp @ (if fair_turn s = ''A'' then q_a s' else q_b s')
             \<and> fair_secondary s = bs @ (if fair_turn s = ''A'' then q_b s' else q_a s')
             \<and> (fair_primary s \<noteq> [] \<and> length (seqs (hd (fair_primary s))) \<le> MAX_BATCH \<longrightarrow>
                  hd b = hd (fair_primary s) \<and> bp \<noteq> [] \<and> last_turn s' = fair_turn s)
             \<and> (fair_primary s = [] \<or> MAX_BATCH < length (seqs (hd (fair_primary s))) \<longrightarrow>
                  bp = [] \<and> b = take_fitting 0 (fair_secondary s) \<and> last_turn s' = last_turn s)
             \<and> (\<forall>response b1 s1 evs' evs2 response2 b2 s2.
                  valid_queues s \<and> q_a s \<noteq> [] \<and> q_b s \<noteq> []
                  \<and> dispatcher_cycle evs response s = Some (b1, s1)
                  \<and> strategy (apply_events evs' s1) = fair
                  \<and> q_a (apply_events evs' s1) \<noteq> [] \<and> q_b (apply_events evs' s1) \<noteq> []
                  \<and> dispatcher_cycle evs2 response2 (apply_events evs' s1) = Some (b2, s2)
                  \<longrightarrow> b1 \<noteq> [] \<and> b2 \<noteq> []
                      \<and> (cid (hd b1) = ''A'') = (fair_turn s = ''A'')
                      \<and> (cid (hd b2) = ''A'') = (fair_turn s \<noteq> ''A'')))"
proof -
  define bp where "bp = take_fitting 0 (fair_primary s)"
  define bs where "bs = take_fitting (batch_size bp) (fair_secondary s)"
  have sel: "select_batch evs s = select_fair s"
    using assms by (simp add: select_batch_def)
  have b: "batch (fst (select_batch evs s)) = bp @ bs"
    unfolding sel
    by (auto simp: select_fair_eq Let_def bp_def bs_def fair_primary_def fair_secondary_def)
  have lt: "last_turn (snd (select_batch evs s)) = (if bp = [] then last_turn s else fair_turn s)"
    using assms by (simp add: last_turn_select_batch bp_def)
  have p: "fair_primary s = bp @ (if fair_turn s = ''A'' then q_a (snd (select_batch evs s))
      else q_b (snd (select_batch evs s)))"
    unfolding sel
    by (cases "q_a s \<noteq> [] \<or> q_b s \<noteq> []")
       (auto simp: select_fair_eq Let_def bp_def take_fitting_prefix fair_primary_def)
  have q: "fair_secondary s = bs @ (if fair_turn s = ''A'' then q_b (snd (select_batch evs s))
      else q_a (snd (select_batch evs s)))"
    unfolding sel
    by (cases "q_a s \<noteq> [] \<or> q_b s \<noteq> []")
       (auto simp: select_fair_eq Let_def bs_def bp_def [symmetric] take_fitting_prefix
          fair_secondary_def)
  have open1: "hd (batch (fst (select_batch evs s))) = hd (fair_primary s) \<and> bp \<noteq> []
      \<and> last_turn (snd (select_batch evs s)) = fair_turn s"
    if "fair_primary s \<noteq> []" "length (seqs (hd (fair_primary s))) \<le> MAX_BATCH"
    using hd_take_fitting [OF that] b lt by (simp add: bp_def [symmetric])
  have blocked: "bp = [] \<and> batch (fst (select_batch evs s)) = take_fitting 0 (fair_secondary s)
      \<and> last_turn (snd (select_batch evs s)) = last_turn s"
    if "fair_primary s = [] \<or> MAX_BATCH < length (seqs (hd (fair_primary s)))"
  proof -
    from take_fitting_blocked [OF that] have "bp = []" by (simp add: bp_def)
    with b lt show ?thesis by (simp add: bs_def)
  qed
  have alt: "b1 \<noteq> [] \<and> b2 \<noteq> [] \<and> (cid (hd b1) = ''A'') = (fair_turn s = ''A'')
      \<and> (cid (hd b2) = ''A'') = (fair_turn s \<noteq> ''A'')"
    if v: "valid_queues s" and ne: "q_a s \<noteq> []" "q_b s \<noteq> []"
      and c1: "dispatcher_cycle evs response s = Some (b1, s1)"
      and t: "strategy (apply_events evs' s1) = fair" "q_a (apply_events evs' s1) \<noteq> []"
        "q_b (apply_events evs' s1) \<noteq> []"
      and c2: "dispatcher_cycle evs2 response2 (apply_events evs' s1) = Some (b2, s2)"
    for response b1 s1 evs' evs2 response2 b2 s2
  proof -
    define t where "t = apply_events evs' s1"
    have b1: "b1 = batch (fst (select_batch evs s))"
      using c1 by (rule dispatcher_cycle_batch)
    have b2: "b2 = batch (fst (select_batch evs2 t))"
      using c2 unfolding t_def by (rule dispatcher_cycle_batch)
    from dispatcher_cycle_state [OF c1] obtain f where
      s1: "s1 = (snd (select_batch evs s))\<lparr>futs := f\<rparr>" by blast
    have "last_turn t = last_turn (snd (select_batch evs s))"
      by (simp add: t_def s1)
    also have "\<dots> = fair_turn s"
      by (rule fair_opens(4) [OF v assms]) (simp add: fair_primary_def ne)
    finally have turn: "fair_turn t = (if fair_turn s = ''B'' then ''A'' else ''B'')"
      by (simp add: fair_turn_def)
    have vt: "valid_queues t"
      unfolding t_def
      by (rule valid_queues_apply_events) (rule valid_queues_dispatcher_cycle [OF v c1])
    have pt: "fair_primary t \<noteq> []"
      using t by (simp add: fair_primary_def t_def)
    have ps: "fair_primary s \<noteq> []"
      using ne by (simp add: fair_primary_def)
    from fair_opens(1,3) [OF v assms ps, of evs]
      fair_opens(1,3) [OF vt t(1) [folded t_def] pt, of evs2]
      turn fair_turn_cases [of s]
    show ?thesis
      unfolding b1 b2 by auto
  qed
  have 1: "fair_turn s = (if last_turn s = ''B'' then ''A'' else ''B'')"
    by (simp add: fair_turn_def)
  have 2: "fair_primary s = (if fair_turn s = ''A'' then q_a s else q_b s)"
    by (simp add: fair_primary_def)
  have 3: "fair_secondary s = (if fair_turn s = ''A'' then q_b s else q_a s)"
    by (simp add: fair_secondary_def)
  have 7: "fair_primary s \<noteq> [] \<and> length (seqs (hd (fair_primary s))) \<le> MAX_BATCH \<longrightarrow>
      hd (batch (fst (select_batch evs s))) = hd (fair_primary s) \<and> bp \<noteq> []
      \<and> last_turn (snd (select_batch evs s)) = fair_turn s"
    using open1 by (intro impI) (elim conjE)
  have 8: "fair_primary s = [] \<or> MAX_BATCH < length (seqs (hd (fair_primary s))) \<longrightarrow>
      bp = [] \<and> batch (fst (select_batch evs s)) = take_fitting 0 (fair_secondary s)
      \<and> last_turn (snd (select_batch evs s)) = last_turn s"
    using blocked by (intro impI)
  have 9: "\<forall>response b1 s1 evs' evs2 response2 b2 s2.
      valid_queues s \<and> q_a s \<noteq> [] \<and> q_b s \<noteq> []
      \<and> dispatcher_cycle evs response s = Some (b1, s1)
      \<and> strategy (apply_events evs' s1) = fair
      \<and> q_a (apply_events evs' s1) \<noteq> [] \<and> q_b (apply_events evs' s1) \<noteq> []
      \<and> dispatcher_cycle evs2 response2 (apply_events evs' s1) = Some (b2, s2)
      \<longrightarrow> b1 \<noteq> [] \<and> b2 \<noteq> []
          \<and> (cid (hd b1) = ''A'') = (fair_turn s = ''A'')
          \<and> (cid (hd b2) = ''A'') = (fair_turn s \<noteq> ''A'')"
  proof (intro allI impI, elim conjE)
    fix response b1 s1 evs' evs2 response2 b2 s2
    assume "valid_queues s" "q_a s \<noteq> []" "q_b s \<noteq> []"
      "dispatcher_cycle evs response s = Some (b1, s1)"
      "strategy (apply_events evs' s1) = fair"
      "q_a (apply_events evs' s1) \<noteq> []" "q_b (apply_events evs' s1) \<noteq> []"
      "dispatcher_cycle evs2 response2 (apply_events evs' s1) = Some (b2, s2)"
    then show "b1 \<noteq> [] \<and> b2 \<noteq> [] \<and> (cid (hd b1) = ''A'') = (fair_turn s = ''A'')
        \<and> (cid (hd b2) = ''A'') = (fair_turn s \<noteq> ''A'')"
      by (rule alt)
  qed
  show ?thesis
    unfolding Let_def bp_def [symmetric] bs_def [symmetric]
    by (intro conjI 1 2 3 b p q 7 8 9)
qed


lemmas fair_example_simps = Let_def dispatcher_cycle_def select_batch_def select_fair_def apply_events_def
      proxy_classify_def Item_init_def upper_def upper_char_def valid_queues_def valid_item_def
      refill_def stranded_state_def initial_state_def item_r1_def item_r2_def MAX_BATCH_def

theorem fair_alternation_witness:
  "valid_queues (stranded_state fair)
   \<and> q_a (stranded_state fair) \<noteq> [] \<and> q_b (stranded_state fair) \<noteq> []
   \<and> map_option (map cid \<circ> fst) (dispatcher_cycle [] (Inl ''e'') (stranded_state fair))
       = Some [''A'']
   \<and> (case dispatcher_cycle [] (Inl ''e'') (stranded_state fair) of
         None \<Rightarrow> False
       | Some (b1, s1) \<Rightarrow>
           map q_a [apply_events refill s1] \<noteq> [[]] \<and> map q_b [apply_events refill s1] \<noteq> [[]]
           \<and> map_option (map cid \<circ> fst) (dispatcher_cycle [] (Inl ''e'') (apply_events refill s1))
               = Some [''B'', ''A''])"
proof -
  have f: "strategy (stranded_state fair) = fair"
    by (simp add: stranded_state_def initial_state_def)
  have v: "valid_queues (stranded_state fair)"
    by (simp add: fair_example_simps)
  have ne: "q_a (stranded_state fair) \<noteq> []" "q_b (stranded_state fair) \<noteq> []"
    by (simp_all add: fair_example_simps)
  obtain s1 where c1: "dispatcher_cycle [] (Inl ''e'') (stranded_state fair) = Some ([item_r1], s1)"
    and t: "strategy (apply_events refill s1) = fair" "q_a (apply_events refill s1) \<noteq> []"
      "q_b (apply_events refill s1) \<noteq> []"
    and c2': "\<exists>i s2. dispatcher_cycle [] (Inl ''e'') (apply_events refill s1) = Some ([item_r2, i], s2)
        \<and> cid i = ''A''"
    by (simp add: fair_example_simps)
  from c2' obtain i s2 where
    c2: "dispatcher_cycle [] (Inl ''e'') (apply_events refill s1) = Some ([item_r2, i], s2)"
    and i: "cid i = ''A''"
    by blast
  define b1 where "b1 = [item_r1]"
  define b2 where "b2 = [item_r2, i]"
  note alt = fair_alternation [OF f, of "[]", unfolded Let_def, THEN conjunct2, THEN conjunct2,
      THEN conjunct2, THEN conjunct2, THEN conjunct2, THEN conjunct2, THEN conjunct2,
      THEN conjunct2, rule_format, of "Inl ''e''" b1 s1 refill "[]" "Inl ''e''" b2 s2]
  have "b1 \<noteq> [] \<and> b2 \<noteq> [] \<and> (cid (hd b1) = ''A'') = (fair_turn (stranded_state fair) = ''A'')
      \<and> (cid (hd b2) = ''A'') = (fair_turn (stranded_state fair) \<noteq> ''A'')"
  proof (rule alt)
    show "valid_queues (stranded_state fair) \<and> q_a (stranded_state fair) \<noteq> []
        \<and> q_b (stranded_state fair) \<noteq> []
        \<and> dispatcher_cycle [] (Inl ''e'') (stranded_state fair) = Some (b1, s1)
        \<and> strategy (apply_events refill s1) = fair
        \<and> q_a (apply_events refill s1) \<noteq> [] \<and> q_b (apply_events refill s1) \<noteq> []
        \<and> dispatcher_cycle [] (Inl ''e'') (apply_events refill s1) = Some (b2, s2)"
      using v ne c1 t c2 unfolding b1_def b2_def by blast
  qed
  then show ?thesis
    using v ne c1 c2 t i by (simp add: b1_def b2_def item_r1_def item_r2_def)
qed

section \<open>The first FAIR batch\<close>

lemma dispatcher_cycle_last_turn:
  "dispatcher_cycle evs response s = Some (b, s') \<Longrightarrow>
     last_turn s' = last_turn (snd (select_batch evs s))"
  using dispatcher_cycle_state [of evs response s b s'] by auto

lemma fair_not_engaged_last_turn:
  "run steps s = Some s' \<Longrightarrow> fair_not_engaged steps s \<Longrightarrow> last_turn s = ''B'' \<Longrightarrow>
     last_turn s' = ''B''"
proof (induction steps s rule: run.induct)
  case (1 s)
  then show ?case by simp
next
  case (2 e rest s)
  then show ?case by simp
next
  case (3 evs response rest s)
  from "3.prems"(1) obtain b s1 where c: "dispatcher_cycle evs response s = Some (b, s1)"
    and r: "run rest s1 = Some s'"
    by (auto split: option.splits)
  from "3.prems"(2) c have idle: "strategy s = fair \<longrightarrow> q_a s = []"
    and ne: "fair_not_engaged rest s1"
    by simp_all
  have "last_turn s1 = last_turn (snd (select_batch evs s))"
    using c by (rule dispatcher_cycle_last_turn)
  also have "\<dots> = ''B''"
    using idle "3.prems"(3)
    by (simp add: last_turn_select_batch fair_primary_def fair_turn_def)
  finally have "last_turn s1 = ''B''" .
  with "3.IH" [OF c refl r ne] show ?case .
qed

text \<open>
  C10. \<open>last_turn\<close> starts as \<open>B\<close>. After any stretch of events and dispatcher
  iterations from the initial state in which FAIR has not yet served class A, it still
  is \<open>B\<close>; so a FAIR cycle that then finds \<open>q_a\<close> non-empty computes the turn \<open>A\<close>,
  the head of \<open>q_a\<close> fits (it was admitted), and the batch opens with it, an item of
  class A, and \<open>last_turn\<close> becomes \<open>A\<close>.
\<close>

theorem first_fair_batch_opens_with_A:
  assumes "run steps (initial_state DEFAULT) = Some s"
    and "fair_not_engaged steps (initial_state DEFAULT)"
    and "strategy s = fair" and "q_a s \<noteq> []"
  shows "last_turn (initial_state DEFAULT) = ''B'' \<and> last_turn s = ''B'' \<and> fair_turn s = ''A''
     \<and> length (seqs (hd (q_a s))) \<le> MAX_BATCH
     \<and> batch (fst (select_batch evs s)) \<noteq> []
     \<and> hd (batch (fst (select_batch evs s))) = hd (q_a s)
     \<and> cid (hd (batch (fst (select_batch evs s)))) = ''A''
     \<and> last_turn (snd (select_batch evs s)) = ''A''"
proof -
  have init: "last_turn (initial_state DEFAULT) = ''B''"
    by (simp add: initial_state_def)
  have lt: "last_turn s = ''B''"
    using assms(1,2) init by (rule fair_not_engaged_last_turn)
  then have turn: "fair_turn s = ''A''"
    by (simp add: fair_turn_def)
  have v: "valid_queues s"
    using valid_queues_initial assms(1) by (rule valid_queues_run)
  have p: "fair_primary s = q_a s"
    using turn by (simp add: fair_primary_def)
  with assms(4) have ne: "fair_primary s \<noteq> []" by simp
  have "hd (q_a s) \<in> set (q_a s)" using assms(4) by simp
  with v have fit: "length (seqs (hd (q_a s))) \<le> MAX_BATCH"
    by (auto simp: valid_queues_def list_all_iff valid_item_def)
  from fair_opens [OF v assms(3) ne, of evs] init lt turn fit show ?thesis
    by (simp add: p)
qed


theorem first_fair_batch_opens_with_A_witness:
  "fair_not_engaged warm_up (initial_state fair)
   \<and> map_option strategy (run warm_up (initial_state fair)) = Some fair
   \<and> map_option (map item_id \<circ> q_a) (run warm_up (initial_state fair)) = Some [''r4'']
   \<and> (case run warm_up (initial_state fair) of
         None \<Rightarrow> False
       | Some s \<Rightarrow> map cid (batch (fst (select_batch [] s))) = [''A'']
           \<and> last_turn (snd (select_batch [] s)) = ''A'')"
proof -
  obtain s where s: "run warm_up (initial_state fair) = Some s"
    by (simp add: warm_up_def dispatcher_cycle_def select_batch_def select_fair_def
        proxy_classify_def Item_init_def upper_def upper_char_def initial_state_def
        MAX_BATCH_def Let_def)
  have n: "fair_not_engaged warm_up (initial_state fair)"
    by (simp add: warm_up_def dispatcher_cycle_def select_batch_def select_fair_def
        proxy_classify_def Item_init_def upper_def upper_char_def initial_state_def
        MAX_BATCH_def Let_def)
  have f: "strategy s = fair" and q: "map item_id (q_a s) = [''r4'']"
    using s
    by (auto simp: warm_up_def dispatcher_cycle_def select_batch_def select_fair_def
        proxy_classify_def Item_init_def upper_def upper_char_def initial_state_def
        MAX_BATCH_def Let_def)
  from q have ne: "q_a s \<noteq> []" by auto
  have one: "length (batch (fst (select_batch [] s))) = 1"
    using s
    by (auto simp: warm_up_def dispatcher_cycle_def select_batch_def select_fair_def
        proxy_classify_def Item_init_def upper_def upper_char_def initial_state_def
        MAX_BATCH_def Let_def)
  from first_fair_batch_opens_with_A [OF s n f ne, of "[]"] one
  have "map cid (batch (fst (select_batch [] s))) = [''A'']"
    by (cases "batch (fst (select_batch [] s))") simp_all
  with first_fair_batch_opens_with_A [OF s n f ne, of "[]"] n f q s show ?thesis
    by simp
qed

section \<open>Demultiplexing\<close>

lemma update_fresh: "map_of rr k = None \<Longrightarrow> AList.update k v rr = rr @ [(k, v)]"
  by (induction rr) (auto split: if_splits)

lemma group_chunk:
  assumes "map_of rr (item_id itm) = Some (it, res)" "i + length ls \<le> length res"
  shows "group_results (zip (map (\<lambda>p. (itm, p)) [i..<i + length ls]) ls @ rest) rr =
     group_results rest
       (AList.update (item_id itm) (it, take i res @ ls @ drop (i + length ls) res) rr)"
  using assms
proof (induction ls arbitrary: i res rr)
  case Nil
  then show ?case by (simp add: update_triv)
next
  case (Cons l ls)
  from Cons.prems(2) have i: "i < length res" by simp
  have upt: "[i..<i + length (l # ls)] = i # [Suc i..<Suc i + length ls]"
    using upt_conv_Cons [of i "i + length (l # ls)"] by (simp del: upt_Suc)
  let ?rr = "AList.update (item_id itm) (it, res[i := l]) rr"
  have m: "map_of ?rr (item_id itm) = Some (it, res[i := l])"
    by (simp add: update_conv')
  have len: "Suc i + length ls \<le> length (res[i := l])"
    using Cons.prems(2) by simp
  have buf: "take (Suc i) (res[i := l]) @ ls @ drop (Suc i + length ls) (res[i := l])
      = take i res @ (l # ls) @ drop (i + length (l # ls)) res"
    using i by (simp add: take_Suc_conv_app_nth)
  have "group_results (zip (map (\<lambda>p. (itm, p)) [i..<i + length (l # ls)]) (l # ls) @ rest) rr
      = group_results (zip (map (\<lambda>p. (itm, p)) [Suc i..<Suc i + length ls]) ls @ rest) ?rr"
    unfolding upt using Cons.prems(1) i by simp
  also have "\<dots> = group_results rest
      (AList.update (item_id itm)
         (it, take (Suc i) (res[i := l]) @ ls @ drop (Suc i + length ls) (res[i := l])) ?rr)"
    by (rule Cons.IH [OF m len])
  finally show ?case
    unfolding buf by simp
qed

lemma group_fresh:
  assumes "map_of rr (item_id itm) = None"
  shows "group_results (((itm, pos), lab) # rest) rr =
     group_results (((itm, pos), lab) # rest)
       (AList.update (item_id itm) (itm, replicate (length (seqs itm)) None) rr)"
  using assms by (simp add: update_conv')

lemma zip_take_left: "zip (take (length ys) xs) ys = zip xs ys"
  by (induction xs ys rule: list_induct2') simp_all

lemma zip_chunk:
  "zip (map (\<lambda>p. (itm, p)) [0..<n] @ xs) ls =
     zip (map (\<lambda>p. (itm, p)) [0..<0 + length (take n ls)]) (take n ls) @ zip xs (drop n ls)"
proof -
  have "zip (map (\<lambda>p. (itm, p)) [0..<n] @ xs) ls =
      zip (map (\<lambda>p. (itm, p)) [0..<n]) (take n ls) @ zip xs (drop n ls)"
    by (simp add: zip_append1)
  moreover have "zip (map (\<lambda>p. (itm, p)) [0..<n]) (take n ls) =
      zip (take (length (take n ls)) (map (\<lambda>p. (itm, p)) [0..<n])) (take n ls)"
    by (simp only: zip_take_left)
  moreover have "take (length (take n ls)) (map (\<lambda>p. (itm, p)) [0..<n]) =
      map (\<lambda>p. (itm, p)) [0..<0 + length (take n ls)]"
    by (simp add: take_map min_def)
  ultimately show ?thesis by simp
qed

lemma group_item:
  assumes "map_of rr (item_id itm) = None"
  shows "group_results (zip (map (\<lambda>p. (itm, p)) [0..<length (seqs itm)] @ xs) ls) rr =
     group_results (zip xs (drop (length (seqs itm)) ls))
       (rr @ (if ls = [] \<or> seqs itm = [] then []
              else [(item_id itm, itm,
                     take (length (seqs itm)) ls
                       @ replicate (length (seqs itm) - length ls) None)]))"
proof (cases "ls = [] \<or> seqs itm = []")
  case True
  then show ?thesis by auto
next
  case False
  define n where "n = length (seqs itm)"
  define c where "c = take n ls"
  from False have c: "c \<noteq> []" by (simp add: c_def n_def)
  then obtain l c' where lc: "c = l # c'" by (cases c) auto
  let ?init = "replicate n (None :: label)"
  let ?rr = "AList.update (item_id itm) (itm, ?init) rr"
  let ?chunk = "zip (map (\<lambda>p. (itm, p)) [0..<0 + length c]) c"
  have m: "map_of ?rr (item_id itm) = Some (itm, ?init)"
    by (simp add: update_conv')
  have len: "0 + length c \<le> length ?init"
    by (simp add: c_def)
  have hd: "?chunk @ zip xs (drop n ls) = ((itm, 0), l) # tl (?chunk @ zip xs (drop n ls))"
    using upt_conv_Cons [of 0 "0 + length c"] by (simp add: lc del: upt_Suc)
  have "group_results (zip (map (\<lambda>p. (itm, p)) [0..<n] @ xs) ls) rr
      = group_results (?chunk @ zip xs (drop n ls)) rr"
    unfolding c_def by (simp only: zip_chunk)
  also have "\<dots> = group_results (?chunk @ zip xs (drop n ls)) ?rr"
    by (subst hd, subst (2) hd) (simp only: n_def group_fresh [OF assms])
  also have "\<dots> = group_results (zip xs (drop n ls))
      (AList.update (item_id itm) (itm, take 0 ?init @ c @ drop (0 + length c) ?init) ?rr)"
    by (rule group_chunk [OF m len])
  also have "AList.update (item_id itm) (itm, take 0 ?init @ c @ drop (0 + length c) ?init) ?rr
      = rr @ [(item_id itm, itm, c @ replicate (n - length ls) None)]"
  proof -
    have "take 0 ?init @ c @ drop (0 + length c) ?init = c @ replicate (n - length ls) None"
      by (simp add: c_def min_def)
    moreover have "AList.update (item_id itm) (itm, c @ replicate (n - length ls) None) ?rr
        = AList.update (item_id itm) (itm, c @ replicate (n - length ls) None) rr"
      by (rule update_last)
    moreover have "\<dots> = rr @ [(item_id itm, itm, c @ replicate (n - length ls) None)]"
      using assms by (rule update_fresh)
    ultimately show ?thesis by (simp only:)
  qed
  finally show ?thesis
    using False by (simp add: n_def c_def)
qed

lemma map_of_append_None:
  "map_of (xs @ ys) k = None \<longleftrightarrow> map_of xs k = None \<and> map_of ys k = None"
  by (simp add: map_of_eq_None_iff image_Un)

lemma group_batch:
  assumes "distinct (map item_id b)" "\<forall>itm \<in> set b. map_of rr (item_id itm) = None"
  shows "group_results (zip (snd (flatten b)) ls) rr = Some (rr @ buffers b ls)"
  using assms
proof (induction b arbitrary: ls rr)
  case Nil
  then show ?case by (simp add: flatten_def)
next
  case (Cons itm b)
  let ?e = "(if ls = [] \<or> seqs itm = [] then []
             else [(item_id itm, itm,
                    take (length (seqs itm)) ls @ replicate (length (seqs itm) - length ls) None)])"
  from Cons.prems have fresh: "map_of rr (item_id itm) = None"
    and d: "distinct (map item_id b)"
    by simp_all
  from Cons.prems(1) have notin: "item_id itm \<notin> item_id ` set b"
    by simp
  have "item_id i \<noteq> item_id itm" if "i \<in> set b" for i
    using notin that by (metis imageI)
  with Cons.prems(2) have rest: "\<forall>i \<in> set b. map_of (rr @ ?e) (item_id i) = None"
    by (auto simp: map_of_append_None)
  have "group_results (zip (snd (flatten (itm # b))) ls) rr
      = group_results (zip (snd (flatten b)) (drop (length (seqs itm)) ls)) (rr @ ?e)"
    using group_item [OF fresh, of "snd (flatten b)" ls] by (simp add: flatten_def)
  also have "\<dots> = Some ((rr @ ?e) @ buffers b (drop (length (seqs itm)) ls))"
    by (rule Cons.IH [OF d rest])
  finally show ?case by simp
qed


lemma set_results_append: "set_results (xs @ ys) f = set_results ys (set_results xs f)"
  by (induction xs f rule: set_results.induct) simp_all

lemma set_results_other:
  "i \<notin> (\<lambda>e. item_id (fst (snd e))) ` set rr \<Longrightarrow> set_results rr f i = f i"
  by (induction rr f rule: set_results.induct) auto

lemma buffers_items: "e \<in> set (buffers b ls) \<Longrightarrow> fst (snd e) \<in> set b"
  by (induction b arbitrary: ls) (auto split: if_splits)

lemma set_results_buffers_other:
  assumes "i \<notin> item_id ` set b"
  shows "set_results (buffers b ls) f i = f i"
proof (rule set_results_other)
  show "i \<notin> (\<lambda>e. item_id (fst (snd e))) ` set (buffers b ls)"
    using assms buffers_items [of _ b ls] by (metis (no_types, lifting) imageE imageI)
qed

lemma complete_buffer:
  "list_all (\<lambda>x. x \<noteq> None) (take n ls @ replicate (n - length ls) None)
     \<longleftrightarrow> n \<le> length ls \<and> None \<notin> set (take n ls)"
proof -
  have A: "list_all (\<lambda>x. x \<noteq> None) xs \<longleftrightarrow> None \<notin> set xs" for xs :: "'a option list"
  proof (induction xs)
    case Nil
    show ?case by simp
  next
    case (Cons a xs)
    then show ?case by (cases a) simp_all
  qed
  show ?thesis unfolding A by auto
qed

lemma set_results_buffers_item:
  assumes "distinct (map item_id b)" "k < length b"
  shows "set_results (buffers b ls) f (item_id (b ! k)) =
     (if 1 \<le> length (seqs (b ! k))
         \<and> batch_size (take k b) + length (seqs (b ! k)) \<le> length ls
         \<and> None \<notin> set (take (length (seqs (b ! k))) (drop (batch_size (take k b)) ls))
         \<and> \<not> fut_done (f (item_id (b ! k)))
      then Result (take (length (seqs (b ! k))) (drop (batch_size (take k b)) ls))
      else f (item_id (b ! k)))"
  using assms
proof (induction b arbitrary: k ls f)
  case Nil
  then show ?case by simp
next
  case (Cons itm b)
  define n where "n = length (seqs itm)"
  define e where "e = (if ls = [] \<or> seqs itm = [] then []
      else [(item_id itm, itm, take n ls @ replicate (n - length ls) None)])"
  have split: "set_results (buffers (itm # b) ls) f =
      set_results (buffers b (drop n ls)) (set_results e f)"
    by (simp add: e_def n_def set_results_append)
  from Cons.prems(1) have notin: "item_id itm \<notin> item_id ` set b"
    and d: "distinct (map item_id b)"
    by simp_all
  show ?case
  proof (cases k)
    case 0
    have "set_results (buffers (itm # b) ls) f (item_id itm) = set_results e f (item_id itm)"
      unfolding split using notin by (rule set_results_buffers_other)
    also have "\<dots> =
        (if 1 \<le> n \<and> n \<le> length ls \<and> None \<notin> set (take n ls) \<and> \<not> fut_done (f (item_id itm))
         then Result (take n ls) else f (item_id itm))"
    proof (cases "ls = [] \<or> seqs itm = []")
      case True
      then show ?thesis by (auto simp: e_def n_def)
    next
      case False
      let ?buf = "take n ls @ replicate (n - length ls) None"
      from False have e: "e = [(item_id itm, itm, ?buf)]"
        by (simp add: e_def)
      have c: "list_all (\<lambda>x. x \<noteq> None) ?buf \<longleftrightarrow> n \<le> length ls \<and> None \<notin> set (take n ls)"
        by (rule complete_buffer)
      have b: "n \<le> length ls \<Longrightarrow> ?buf = take n ls"
        by simp
      from False have n1: "1 \<le> n"
        by (cases "seqs itm") (simp_all add: n_def)
      show ?thesis
        unfolding e set_results.simps c using b n1 by auto
    qed
    finally show ?thesis
      using 0 by (simp add: n_def)
  next
    case (Suc k')
    with Cons.prems(2) have k': "k' < length b" by simp
    then have "b ! k' \<in> set b" by simp
    with notin have neq: "item_id (b ! k') \<noteq> item_id itm" by (metis imageI)
    have same: "set_results e f (item_id (b ! k')) = f (item_id (b ! k'))"
      using neq by (simp add: e_def)
    have len: "batch_size (take k' b) + length (seqs (b ! k')) \<le> length ls - n
        \<longleftrightarrow> n + batch_size (take k' b) + length (seqs (b ! k')) \<le> length ls"
      if "1 \<le> length (seqs (b ! k'))"
      using that by arith
    have dr: "drop (batch_size (take k' b)) (drop n ls) = drop (n + batch_size (take k' b)) ls"
      by (simp add: add.commute)
    note IH = Cons.IH [OF d k', of "drop n ls" "set_results e f", unfolded same dr length_drop]
    have at: "(itm # b) ! Suc k' = b ! k'"
      and off: "batch_size (take (Suc k') (itm # b)) = n + batch_size (take k' b)"
      by (simp_all add: n_def)
    show ?thesis
      unfolding Suc split at off IH using len by (auto simp: add.assoc)
  qed
qed

lemma flat_nth:
  "k < length b \<Longrightarrow> p < length (seqs (b ! k)) \<Longrightarrow>
     fst (flatten b) ! (batch_size (take k b) + p) = seqs (b ! k) ! p"
proof (induction b arbitrary: k)
  case Nil
  then show ?case by simp
next
  case (Cons itm b)
  show ?case
  proof (cases k)
    case 0
    with Cons.prems show ?thesis by (simp add: flatten_def nth_append)
  next
    case (Suc k')
    with Cons.prems have "fst (flatten b) ! (batch_size (take k' b) + p) = seqs (b ! k') ! p"
      by (intro Cons.IH) simp_all
    then show ?thesis
      using Suc by (simp add: flatten_def nth_append add.assoc)
  qed
qed

lemma zip_take_right: "zip xs (take (length xs) ys) = zip xs ys"
  by (induction xs ys rule: list_induct2') simp_all

lemma demux_excess: "demux b (take (batch_size b) labels) f = demux b labels f"
  using zip_take_right [of "snd (flatten b)" labels]
  by (simp add: demux_def length_idx_map)

lemma demux_eq:
  "distinct (map item_id b) \<Longrightarrow> demux b labels f = Some (set_results (buffers b labels) f)"
  using group_batch [of b "[]" labels] by (simp add: demux_def)


text \<open>
  C4, as stated, fails. A batch of one item of three sequences gets a single label back:
  the item's buffer keeps two unfilled positions, and the cycle leaves its future pending.
  No error is set, "truncated downstream response" or other, and the handler stays
  suspended.
\<close>

theorem truncated_response_counterexample:
  "map_option fst (dispatcher_cycle [] (Inr [Some ''code'']) lone_state) = Some [item_r1]
   \<and> length (fst (flatten [item_r1])) = 3
   \<and> map_option (\<lambda>r. futs (snd r) ''r1'') (dispatcher_cycle [] (Inr [Some ''code'']) lone_state)
       = Some Pending
   \<and> Pending \<noteq> Exception ''truncated downstream response''
   \<and> proxy_classify_answer 0 Pending = None"
  by (simp add: dispatcher_cycle_def select_batch_def select_fcfs_def apply_events_def demux_def
      flatten_def lone_state_def initial_state_def item_r1_def MAX_BATCH_def
      proxy_classify_answer_def Let_def)

text \<open>
  C4, amended. For a batch of items with distinct ids, after a downstream call that
  returned \<open>labels\<close> the cycle ends normally. Take the item at place \<open>k\<close> of the batch,
  with \<open>n \<ge> 1\<close> sequences starting at flat position \<open>off\<close>, and \<open>sl\<close> the labels at the
  flat positions \<open>off\<close> to \<open>off + n - 1\<close>. When all of these were returned, none of them
  null, and the future was not done, the future is resolved with \<open>sl\<close>: as many labels
  as the item has sequences, the label at place \<open>p\<close> being the one returned for the
  item's sequence \<open>p\<close>, and the handler answers with them. In every other case the future
  keeps what it held: a done future is not written again, and an item with a position
  that got no label is left unresolved, with no error. Futures of items outside the
  batch are not touched, and labels beyond the flat length change nothing.
\<close>

theorem demux_scatter:
  assumes "distinct (map item_id (batch (fst (select_batch evs s))))"
    and "k < length (batch (fst (select_batch evs s)))"
    and "1 \<le> length (seqs (batch (fst (select_batch evs s)) ! k))"
  shows "(let b = batch (fst (select_batch evs s)); s1 = snd (select_batch evs s);
              itm = b ! k; n = length (seqs itm); off = batch_size (take k b);
              sl = take n (drop off labels)
          in \<exists>f'. demux b labels (futs s1) = Some f'
               \<and> dispatcher_cycle evs (Inr labels) s = Some (b, s1\<lparr>futs := f'\<rparr>)
               \<and> f' (item_id itm) =
                   (if off + n \<le> length labels \<and> None \<notin> set sl
                       \<and> \<not> fut_done (futs s1 (item_id itm))
                    then Result sl else futs s1 (item_id itm))
               \<and> (off + n \<le> length labels \<longrightarrow>
                    length sl = length (seqs itm)
                    \<and> (\<forall>p < n. sl ! p = labels ! (off + p)
                          \<and> fst (flatten b) ! (off + p) = seqs itm ! p))
               \<and> proxy_classify_answer latency (Result sl)
                   = Some (Inr \<lparr>results = sl, proxy_latency_ms = latency\<rparr>)
               \<and> (length labels < off + n \<longrightarrow> f' (item_id itm) = futs s1 (item_id itm))
               \<and> (\<forall>i. i \<notin> item_id ` set b \<longrightarrow> f' i = futs s1 i)
               \<and> demux b (take (batch_size b) labels) (futs s1) = Some f')"
proof -
  define b where "b = batch (fst (select_batch evs s))"
  define s1 where "s1 = snd (select_batch evs s)"
  define f' where "f' = set_results (buffers b labels) (futs s1)"
  define n where "n = length (seqs (b ! k))"
  define off where "off = batch_size (take k b)"
  define sl where "sl = take n (drop off labels)"
  note d = assms(1) [folded b_def] and k = assms(2) [folded b_def]
    and n1 = assms(3) [folded b_def n_def]
  have dm: "demux b labels (futs s1) = Some f'"
    unfolding f'_def using d by (rule demux_eq)
  from k have ne: "b \<noteq> []" by auto
  have cyc: "dispatcher_cycle evs (Inr labels) s = Some (b, s1\<lparr>futs := f'\<rparr>)"
    using ne dm unfolding b_def s1_def
    by (auto simp: dispatcher_cycle_def split: prod.splits)
  have item: "f' (item_id (b ! k)) =
      (if off + n \<le> length labels \<and> None \<notin> set sl \<and> \<not> fut_done (futs s1 (item_id (b ! k)))
       then Result sl else futs s1 (item_id (b ! k)))"
    unfolding f'_def set_results_buffers_item [OF d k]
    using n1 by (simp add: n_def off_def sl_def)
  have align: "length sl = n
      \<and> (\<forall>p < n. sl ! p = labels ! (off + p) \<and> fst (flatten b) ! (off + p) = seqs (b ! k) ! p)"
    if "off + n \<le> length labels"
  proof (intro conjI allI impI)
    show "length sl = n"
      using that by (simp add: sl_def)
  next
    fix p assume "p < n"
    then show "sl ! p = labels ! (off + p)"
      using that by (simp add: sl_def)
  next
    fix p assume "p < n"
    then show "fst (flatten b) ! (off + p) = seqs (b ! k) ! p"
      unfolding off_def n_def by (rule flat_nth [OF k])
  qed
  have ans: "proxy_classify_answer latency (Result sl)
      = Some (Inr \<lparr>results = sl, proxy_latency_ms = latency\<rparr>)"
    by (simp add: proxy_classify_answer_def)
  have trunc: "f' (item_id (b ! k)) = futs s1 (item_id (b ! k))" if "length labels < off + n"
    using that by (simp add: item)
  have other: "f' i = futs s1 i" if "i \<notin> item_id ` set b" for i
    unfolding f'_def using that by (rule set_results_buffers_other)
  have excess: "demux b (take (batch_size b) labels) (futs s1) = Some f'"
    using dm by (simp add: demux_excess)
  have G: "demux b labels (futs s1) = Some f'
      \<and> dispatcher_cycle evs (Inr labels) s = Some (b, s1\<lparr>futs := f'\<rparr>)
      \<and> f' (item_id (b ! k)) =
          (if off + n \<le> length labels \<and> None \<notin> set sl \<and> \<not> fut_done (futs s1 (item_id (b ! k)))
           then Result sl else futs s1 (item_id (b ! k)))
      \<and> (off + n \<le> length labels \<longrightarrow>
           length sl = n
           \<and> (\<forall>p < n. sl ! p = labels ! (off + p)
                 \<and> fst (flatten b) ! (off + p) = seqs (b ! k) ! p))
      \<and> proxy_classify_answer latency (Result sl)
          = Some (Inr \<lparr>results = sl, proxy_latency_ms = latency\<rparr>)
      \<and> (length labels < off + n \<longrightarrow> f' (item_id (b ! k)) = futs s1 (item_id (b ! k)))
      \<and> (\<forall>i. i \<notin> item_id ` set b \<longrightarrow> f' i = futs s1 i)
      \<and> demux b (take (batch_size b) labels) (futs s1) = Some f'"
    using dm cyc item align ans trunc other excess by (intro conjI impI allI) blast+
  show ?thesis
    unfolding Let_def b_def [symmetric] s1_def [symmetric] n_def [symmetric]
      off_def [symmetric] sl_def [symmetric]
    by (rule exI [where x = f']) (rule G)
qed

theorem demux_scatter_witness:
  "map_option fst (dispatcher_cycle [] (Inr three_labels) pair_state) = Some [item_r1, item_r3]
   \<and> map_option (\<lambda>r. futs (snd r) ''r1'') (dispatcher_cycle [] (Inr three_labels) pair_state)
       = Some (Result three_labels)
   \<and> map_option (\<lambda>r. futs (snd r) ''r3'') (dispatcher_cycle [] (Inr three_labels) pair_state)
       = Some Pending"
  using demux_scatter [of "[]" pair_state 0 three_labels 0]
    demux_scatter [of "[]" pair_state 1 three_labels 0]
  by (simp add: Let_def dispatcher_cycle_def select_batch_def select_sjf_def sorted_items_def
      Item_lt_def demux_def flatten_def pair_state_def three_labels_def initial_state_def
      item_r1_def item_r3_def MAX_BATCH_def)

end
